theory Spec2Isabelle
  imports Main
begin

section \<open>The Redis connection of Icinga DB (lib/icingadb/redisconnection.cpp)\<close>

text \<open>
  The file under verification implements one pipelined connection to a Redis server.
  Producers submit queries through four operations; the queries are queued by priority,
  a write loop sends them, and a read loop routes every reply of the server to the
  producer that waits for it, or throws it away.

  The model is a state-passing embedding. All members of the connection that the code
  reads or writes are fields of one record; the two coroutines and the posted closures
  are functions from states to states. Everything the code obtains from outside (the
  outcome of a send, of a receive, of a connect attempt) comes from a record of oracles
  that the theorems quantify over.
\<close>

subsection \<open>Data\<close>

text \<open>A query is a list of byte strings; icinga's String counts bytes, as \<open>length\<close> does here.\<close>

type_synonym Query = "string list"
type_synonym Queries = "Query list"

text \<open>
  The enum QueryPriority is declared in the header, which is not part of the sources.
  The queues are kept in a std::map keyed by it, so all the code relies on is its total
  order: a smaller value is written first.
\<close>

type_synonym QueryPriority = nat

text \<open>
  Modelled from the spec: the type Reply is declared in the header, which is not part of
  the sources. The spec describes it as a tagged sum of simple string, error string,
  integer, bulk string (possibly null) and array of replies.
\<close>

datatype Reply =
    SimpleString string
  | ErrorString string
  | Integer int
  | BulkString "string option"
  | Array "Reply list"

type_synonym Replies = "Reply list"

text \<open>
  Exceptions are values. The handlers of the file tell three kinds apart: the unwind
  exception of the coroutine library, exceptions derived from std::exception (they carry
  the text of what()), and anything else, which only \<open>catch (...)\<close> catches.
\<close>

datatype exn =
    forced_unwind
  | std_exception string
  | other_exception

subsection \<open>The members of the connection\<close>

datatype ResponseAction = Ignore | Deliver | DeliverBulk

text \<open>
  The struct FutureResponseAction is brace-initialised as \<open>{amount, action}\<close>. Its
  declaration is in the header; the counter receives \<open>item.size()\<close> and is only ever
  incremented, so it is modelled as a natural number.
\<close>

record FutureResponseAction =
  Amount :: nat
  Action :: ResponseAction

text \<open>
  A queue item has four pointers, of which the submission operations set exactly one.
  A promise is represented by the address of its shared state.
\<close>

record WriteQueueItem =
  FireAndForgetQuery :: "Query option"
  FireAndForgetQueries :: "Queries option"
  GetResultOfQuery :: "(Query \<times> nat) option"
  GetResultsOfQueries :: "(Queries \<times> nat) option"

text \<open>
  The shared state of a std::promise and its std::future: not ready (absent from the
  store), or holding a reply, a list of replies, or an exception.
\<close>

datatype shared_state =
    holds_Reply Reply
  | holds_Replies Replies
  | holds_exception exn

datatype LogSeverity = LogNotice | LogInformation | LogCritical

type_synonym LogEntry = "LogSeverity \<times> string \<times> string"

text \<open>The closures that the public operations post to the strand.\<close>

datatype Posted =
    EmplaceWrite QueryPriority WriteQueueItem
  | SuppressKind QueryPriority
  | UnsuppressKind QueryPriority

text \<open>
  The state. The first group are the members of the class (\<open>m_Queues.Writes\<close> is a
  std::map from priority to a queue, kept as a list of pairs in ascending key order;
  the two condition variables are kept as their flag). The second group is the world
  around the object: the closures waiting on the strand, the log, the commands that
  reached the server, how often the transport was asked to send, to receive and to
  connect, and the shared states of the promises.
\<close>

record RedisConnection =
  m_Host :: string
  m_Port :: int
  m_Path :: string
  m_Connecting :: bool
  m_Connected :: bool
  m_Started :: bool
  m_TcpConn :: "nat option"
  m_UnixConn :: "nat option"
  m_ConnectedCallback :: bool
  m_SuppressedQueryKinds :: "QueryPriority set"
  m_QueuedWrites :: bool
  m_QueuedReads :: bool
  Writes :: "(QueryPriority \<times> WriteQueueItem list) list"
  FutureResponseActions :: "FutureResponseAction list"
  ReplyPromises :: "nat list"
  RepliesPromises :: "nat list"
  Strand :: "Posted list"
  Logged :: "LogEntry list"
  Wire :: "Query list"
  WriteCalls :: nat
  ReadCalls :: nat
  ConnectCalls :: nat
  Promises :: "nat \<rightharpoonup> shared_state"
  NextPromise :: nat

text \<open>
  What the code cannot decide: whether the k-th send, receive or connect attempt
  raises, whether the on-connected callback or the retry timer raises in the k-th
  attempt, and what the server answers to the last command of a sequence of commands.
\<close>

record io =
  write_fail :: "nat \<Rightarrow> exn option"
  read_fail :: "nat \<Rightarrow> exn option"
  server :: "Query list \<Rightarrow> Reply"
  connect_fail :: "nat \<Rightarrow> exn option"
  callback_fail :: "nat \<Rightarrow> exn option"
  timer_fail :: "nat \<Rightarrow> exn option"

text \<open>
  How a block of code ends: it falls through, it returns from the enclosing function, it
  raises, it has undefined behaviour (front() of an empty std::queue), or it stays
  suspended because the awaited event never comes.
\<close>

datatype exit = Normal | Returned | Thrown exn | Undefined | Blocked

definition Logged_add :: "LogEntry \<Rightarrow> RedisConnection \<Rightarrow> RedisConnection" where
  "Logged_add e s = s\<lparr>Logged := Logged s @ [e]\<rparr>"

text \<open>The state the constructor leaves.\<close>

definition RedisConnection_new :: "string \<Rightarrow> int \<Rightarrow> string \<Rightarrow> RedisConnection" where
  "RedisConnection_new host port path =
     \<lparr>m_Host = host, m_Port = port, m_Path = path,
      m_Connecting = False, m_Connected = False, m_Started = False,
      m_TcpConn = None, m_UnixConn = None, m_ConnectedCallback = False,
      m_SuppressedQueryKinds = {}, m_QueuedWrites = False, m_QueuedReads = False,
      Writes = [], FutureResponseActions = [], ReplyPromises = [], RepliesPromises = [],
      Strand = [], Logged = [], Wire = [], WriteCalls = 0, ReadCalls = 0, ConnectCalls = 0,
      Promises = Map.empty, NextPromise = 0\<rparr>"

subsection \<open>LogQuery\<close>

definition apostrophe :: char where
  "apostrophe = CHR 0x27"

text \<open>
  The loop of LogQuery, with the counter \<open>i\<close> and the message built so far. The counter
  is incremented before it is compared with 8; the comparison leaves the loop.
\<close>

fun LogQuery_loop :: "nat \<Rightarrow> Query \<Rightarrow> string \<Rightarrow> string" where
  "LogQuery_loop i [] msg = msg"
| "LogQuery_loop i (arg # rest) msg =
     (if Suc i = 8 then msg @ '' ...''
      else LogQuery_loop (Suc i) rest
             (if length arg > 64
              then msg @ '' '' @ [apostrophe] @ take 61 arg @ ''...'' @ [apostrophe]
              else msg @ '' '' @ [apostrophe] @ arg @ [apostrophe]))"

definition LogQuery :: "Query \<Rightarrow> string \<Rightarrow> string" where
  "LogQuery query msg = LogQuery_loop 0 query msg"

text \<open>The redacted form in the words of the spec, to be compared with the loop.\<close>

definition redacted_arg :: "string \<Rightarrow> string" where
  "redacted_arg arg =
     '' '' @ [apostrophe] @ (if length arg > 64 then take 61 arg @ ''...'' else arg) @ [apostrophe]"

definition redacted_query :: "Query \<Rightarrow> string" where
  "redacted_query query =
     concat (map redacted_arg (take 7 query)) @ (if length query > 7 then '' ...'' else [])"

subsection \<open>The public operations\<close>

text \<open>
  Each operation logs its queries and posts a closure to the strand; the closure runs
  later (see \<open>Strand_run\<close>). The two operations that return a result create a promise
  first; the caller then waits on the future, whose outcome is the shared state at the
  returned address.
\<close>

text \<open>The four items the operations build: one pointer set, the other three null.\<close>

definition FireOne :: "Query \<Rightarrow> WriteQueueItem" where
  "FireOne query =
     \<lparr>FireAndForgetQuery = Some query, FireAndForgetQueries = None,
      GetResultOfQuery = None, GetResultsOfQueries = None\<rparr>"

definition FireMany :: "Queries \<Rightarrow> WriteQueueItem" where
  "FireMany queries =
     \<lparr>FireAndForgetQuery = None, FireAndForgetQueries = Some queries,
      GetResultOfQuery = None, GetResultsOfQueries = None\<rparr>"

definition AwaitOne :: "Query \<Rightarrow> nat \<Rightarrow> WriteQueueItem" where
  "AwaitOne query promise =
     \<lparr>FireAndForgetQuery = None, FireAndForgetQueries = None,
      GetResultOfQuery = Some (query, promise), GetResultsOfQueries = None\<rparr>"

definition AwaitMany :: "Queries \<Rightarrow> nat \<Rightarrow> WriteQueueItem" where
  "AwaitMany queries promise =
     \<lparr>FireAndForgetQuery = None, FireAndForgetQueries = None,
      GetResultOfQuery = None, GetResultsOfQueries = Some (queries, promise)\<rparr>"

definition LogQueries :: "string \<Rightarrow> Queries \<Rightarrow> RedisConnection \<Rightarrow> RedisConnection" where
  "LogQueries msg queries s =
     s\<lparr>Logged := Logged s @ map (\<lambda>query. (LogNotice, ''IcingaDB'', LogQuery query msg)) queries\<rparr>"

definition post :: "Posted \<Rightarrow> RedisConnection \<Rightarrow> RedisConnection" where
  "post f s = s\<lparr>Strand := Strand s @ [f]\<rparr>"

definition RedisConnection_FireAndForgetQuery ::
    "Query \<Rightarrow> QueryPriority \<Rightarrow> RedisConnection \<Rightarrow> RedisConnection" where
  "RedisConnection_FireAndForgetQuery query priority s =
     post (EmplaceWrite priority (FireOne query))
       (Logged_add (LogNotice, ''IcingaDB'', LogQuery query ''Firing and forgetting query:'') s)"

definition RedisConnection_FireAndForgetQueries ::
    "Queries \<Rightarrow> QueryPriority \<Rightarrow> RedisConnection \<Rightarrow> RedisConnection" where
  "RedisConnection_FireAndForgetQueries queries priority s =
     post (EmplaceWrite priority (FireMany queries))
       (LogQueries ''Firing and forgetting query:'' queries s)"

definition RedisConnection_GetResultOfQuery ::
    "Query \<Rightarrow> QueryPriority \<Rightarrow> RedisConnection \<Rightarrow> nat \<times> RedisConnection" where
  "RedisConnection_GetResultOfQuery query priority s =
     (let promise = NextPromise s in
      (promise,
       post (EmplaceWrite priority (AwaitOne query promise))
         ((Logged_add (LogNotice, ''IcingaDB'', LogQuery query ''Executing query:'') s)
            \<lparr>NextPromise := Suc promise\<rparr>)))"

definition RedisConnection_GetResultsOfQueries ::
    "Queries \<Rightarrow> QueryPriority \<Rightarrow> RedisConnection \<Rightarrow> nat \<times> RedisConnection" where
  "RedisConnection_GetResultsOfQueries queries priority s =
     (let promise = NextPromise s in
      (promise,
       post (EmplaceWrite priority (AwaitMany queries promise))
         ((LogQueries ''Executing query:'' queries s)\<lparr>NextPromise := Suc promise\<rparr>)))"

definition RedisConnection_SuppressQueryKind ::
    "QueryPriority \<Rightarrow> RedisConnection \<Rightarrow> RedisConnection" where
  "RedisConnection_SuppressQueryKind kind s = post (SuppressKind kind) s"

definition RedisConnection_UnsuppressQueryKind ::
    "QueryPriority \<Rightarrow> RedisConnection \<Rightarrow> RedisConnection" where
  "RedisConnection_UnsuppressQueryKind kind s = post (UnsuppressKind kind) s"

text \<open>\<open>future.get()\<close>: nothing while the shared state is not ready.\<close>

definition future_get :: "RedisConnection \<Rightarrow> nat \<Rightarrow> shared_state option" where
  "future_get s promise = Promises s promise"

subsection \<open>The closures on the strand\<close>

text \<open>
  \<open>m_Queues.Writes[priority].emplace(item)\<close>: operator[] of the map finds the queue of
  the key or inserts an empty one at the key's place in the order.
\<close>

fun Writes_emplace ::
    "QueryPriority \<Rightarrow> WriteQueueItem \<Rightarrow> (QueryPriority \<times> WriteQueueItem list) list \<Rightarrow>
     (QueryPriority \<times> WriteQueueItem list) list" where
  "Writes_emplace priority item [] = [(priority, [item])]"
| "Writes_emplace priority item ((k, queue) # rest) =
     (if priority < k then (priority, [item]) # (k, queue) # rest
      else if priority = k then (k, queue @ [item]) # rest
      else (k, queue) # Writes_emplace priority item rest)"

fun run_posted :: "Posted \<Rightarrow> RedisConnection \<Rightarrow> RedisConnection" where
  "run_posted (EmplaceWrite priority item) s =
     s\<lparr>Writes := Writes_emplace priority item (Writes s), m_QueuedWrites := True\<rparr>"
| "run_posted (SuppressKind kind) s =
     s\<lparr>m_SuppressedQueryKinds := insert kind (m_SuppressedQueryKinds s)\<rparr>"
| "run_posted (UnsuppressKind kind) s =
     s\<lparr>m_SuppressedQueryKinds := m_SuppressedQueryKinds s - {kind}, m_QueuedWrites := True\<rparr>"

text \<open>The strand runs the closure that was posted first.\<close>

definition Strand_run :: "RedisConnection \<Rightarrow> RedisConnection" where
  "Strand_run s =
     (case Strand s of [] \<Rightarrow> s | f # rest \<Rightarrow> run_posted f (s\<lparr>Strand := rest\<rparr>))"

subsection \<open>The transport and the promises\<close>

text \<open>
  Modelled from the spec: WriteOne and ReadOne of a stream are templates of the header,
  which is not part of the sources; the file only selects the TCP or the UNIX stream by
  \<open>m_Path\<close> and both behave alike. A send either raises or puts the command on the wire.
  The server answers the commands in the order they were sent, one reply each, so the
  k-th receive yields the reply to the k-th command; it raises when the oracle says so,
  and it stays suspended when no command is left unanswered.
\<close>

definition WriteOne :: "io \<Rightarrow> Query \<Rightarrow> RedisConnection \<Rightarrow> exit \<times> RedisConnection" where
  "WriteOne env query s =
     (let k = WriteCalls s in
      case write_fail env k of
        Some e \<Rightarrow> (Thrown e, s\<lparr>WriteCalls := Suc k\<rparr>)
      | None \<Rightarrow> (Normal, s\<lparr>WriteCalls := Suc k, Wire := Wire s @ [query]\<rparr>))"

definition reply_to :: "io \<Rightarrow> Query list \<Rightarrow> nat \<Rightarrow> Reply" where
  "reply_to env wire k = server env (take (Suc k) wire)"

definition ReadOne :: "io \<Rightarrow> RedisConnection \<Rightarrow> (exit + Reply) \<times> RedisConnection" where
  "ReadOne env s =
     (let k = ReadCalls s in
      case read_fail env k of
        Some e \<Rightarrow> (Inl (Thrown e), s\<lparr>ReadCalls := Suc k\<rparr>)
      | None \<Rightarrow>
          if k < length (Wire s) then (Inr (reply_to env (Wire s) k), s\<lparr>ReadCalls := Suc k\<rparr>)
          else (Inl Blocked, s))"

text \<open>
  std::promise: set_value and set_exception store into the shared state; when it is
  already satisfied they raise std::future_error, which derives from std::exception.
\<close>

definition future_error :: exn where
  "future_error = std_exception ''std::future_error: Promise already satisfied''"

definition promise_set :: "nat \<Rightarrow> shared_state \<Rightarrow> RedisConnection \<Rightarrow> exit \<times> RedisConnection" where
  "promise_set promise v s =
     (case Promises s promise of
        None \<Rightarrow> (Normal, s\<lparr>Promises := (Promises s)(promise \<mapsto> v)\<rparr>)
      | Some _ \<Rightarrow> (Thrown future_error, s))"

definition set_value :: "nat \<Rightarrow> Reply \<Rightarrow> RedisConnection \<Rightarrow> exit \<times> RedisConnection" where
  "set_value promise reply s = promise_set promise (holds_Reply reply) s"

definition set_values :: "nat \<Rightarrow> Replies \<Rightarrow> RedisConnection \<Rightarrow> exit \<times> RedisConnection" where
  "set_values promise replies s = promise_set promise (holds_Replies replies) s"

definition set_exception :: "nat \<Rightarrow> exn \<Rightarrow> RedisConnection \<Rightarrow> exit \<times> RedisConnection" where
  "set_exception promise e s = promise_set promise (holds_exception e) s"

subsection \<open>WriteItem\<close>

text \<open>
  The ledger update that follows a successful send, written three times in the source:
  a new record when the ledger is empty or its last record has another action, else the
  last record's amount grows.
\<close>

definition emplace_or_add ::
    "nat \<Rightarrow> ResponseAction \<Rightarrow> FutureResponseAction list \<Rightarrow> FutureResponseAction list" where
  "emplace_or_add n action ledger =
     (if ledger = [] \<or> Action (last ledger) \<noteq> action
      then ledger @ [\<lparr>Amount = n, Action = action\<rparr>]
      else butlast ledger @ [(last ledger)\<lparr>Amount := Amount (last ledger) + n\<rparr>])"

text \<open>The range-for over the queries of a batch; \<open>i\<close> counts the queries sent.\<close>

fun WriteItem_for ::
    "io \<Rightarrow> Queries \<Rightarrow> nat \<Rightarrow> RedisConnection \<Rightarrow> exit \<times> nat \<times> RedisConnection" where
  "WriteItem_for env [] i s = (Normal, i, s)"
| "WriteItem_for env (query # rest) i s =
     (case WriteOne env query s of
        (Normal, s1) \<Rightarrow> WriteItem_for env rest (Suc i) s1
      | (x, s1) \<Rightarrow> (x, i, s1))"

definition fired_and_forgotten :: "Query \<Rightarrow> exn \<Rightarrow> LogEntry" where
  "fired_and_forgotten query e =
     (LogCritical, ''IcingaDB'',
      LogQuery query ''Error during sending query'' @
        (case e of
           std_exception what \<Rightarrow> '' which has been fired and forgotten: '' @ what
         | _ \<Rightarrow> '' which has been fired and forgotten''))"

definition WriteItem_FireAndForgetQuery ::
    "io \<Rightarrow> WriteQueueItem \<Rightarrow> RedisConnection \<Rightarrow> exit \<times> RedisConnection" where
  "WriteItem_FireAndForgetQuery env next s =
     (case FireAndForgetQuery next of
        None \<Rightarrow> (Normal, s)
      | Some item \<Rightarrow>
          (case WriteOne env item s of
             (Thrown forced_unwind, s1) \<Rightarrow> (Thrown forced_unwind, s1)
           | (Thrown e, s1) \<Rightarrow> (Returned, Logged_add (fired_and_forgotten item e) s1)
           | (Normal, s1) \<Rightarrow>
               (Normal, s1\<lparr>FutureResponseActions :=
                              emplace_or_add 1 Ignore (FutureResponseActions s1),
                            m_QueuedReads := True\<rparr>)
           | (x, s1) \<Rightarrow> (x, s1)))"

definition WriteItem_FireAndForgetQueries ::
    "io \<Rightarrow> WriteQueueItem \<Rightarrow> RedisConnection \<Rightarrow> exit \<times> RedisConnection" where
  "WriteItem_FireAndForgetQueries env next s =
     (case FireAndForgetQueries next of
        None \<Rightarrow> (Normal, s)
      | Some item \<Rightarrow>
          (case WriteItem_for env item 0 s of
             (Thrown forced_unwind, i, s1) \<Rightarrow> (Thrown forced_unwind, s1)
           | (Thrown e, i, s1) \<Rightarrow>
               (if i < length item
                then (Returned, Logged_add (fired_and_forgotten (item ! i) e) s1)
                else (Undefined, s1))
           | (Normal, i, s1) \<Rightarrow>
               (Normal, s1\<lparr>FutureResponseActions :=
                              emplace_or_add (length item) Ignore (FutureResponseActions s1),
                            m_QueuedReads := True\<rparr>)
           | (x, i, s1) \<Rightarrow> (x, s1)))"

definition WriteItem_GetResultOfQuery ::
    "io \<Rightarrow> WriteQueueItem \<Rightarrow> RedisConnection \<Rightarrow> exit \<times> RedisConnection" where
  "WriteItem_GetResultOfQuery env next s =
     (case GetResultOfQuery next of
        None \<Rightarrow> (Normal, s)
      | Some (query, promise) \<Rightarrow>
          (case WriteOne env query s of
             (Thrown forced_unwind, s1) \<Rightarrow> (Thrown forced_unwind, s1)
           | (Thrown e, s1) \<Rightarrow>
               (case set_exception promise e s1 of
                  (Normal, s2) \<Rightarrow> (Returned, s2)
                | (x, s2) \<Rightarrow> (x, s2))
           | (Normal, s1) \<Rightarrow>
               (Normal, s1\<lparr>ReplyPromises := ReplyPromises s1 @ [promise],
                            FutureResponseActions :=
                              emplace_or_add 1 Deliver (FutureResponseActions s1),
                            m_QueuedReads := True\<rparr>)
           | (x, s1) \<Rightarrow> (x, s1)))"

definition WriteItem_GetResultsOfQueries ::
    "io \<Rightarrow> WriteQueueItem \<Rightarrow> RedisConnection \<Rightarrow> exit \<times> RedisConnection" where
  "WriteItem_GetResultsOfQueries env next s =
     (case GetResultsOfQueries next of
        None \<Rightarrow> (Normal, s)
      | Some (queries, promise) \<Rightarrow>
          (case WriteItem_for env queries 0 s of
             (Thrown forced_unwind, i, s1) \<Rightarrow> (Thrown forced_unwind, s1)
           | (Thrown e, i, s1) \<Rightarrow>
               (case set_exception promise e s1 of
                  (Normal, s2) \<Rightarrow> (Returned, s2)
                | (x, s2) \<Rightarrow> (x, s2))
           | (Normal, i, s1) \<Rightarrow>
               (Normal, s1\<lparr>RepliesPromises := RepliesPromises s1 @ [promise],
                            FutureResponseActions :=
                              FutureResponseActions s1 @
                                [\<lparr>Amount = length queries, Action = DeliverBulk\<rparr>],
                            m_QueuedReads := True\<rparr>)
           | (x, i, s1) \<Rightarrow> (x, s1)))"

text \<open>
  The four blocks run one after the other; a block that returns or raises ends the
  function.
\<close>

definition and_then ::
    "exit \<times> RedisConnection \<Rightarrow> (RedisConnection \<Rightarrow> exit \<times> RedisConnection) \<Rightarrow>
     exit \<times> RedisConnection" where
  "and_then r f = (case r of (Normal, s) \<Rightarrow> f s | _ \<Rightarrow> r)"

definition WriteItem :: "io \<Rightarrow> WriteQueueItem \<Rightarrow> RedisConnection \<Rightarrow> exit \<times> RedisConnection" where
  "WriteItem env next s =
     (case and_then (and_then (and_then (WriteItem_FireAndForgetQuery env next s)
                                  (WriteItem_FireAndForgetQueries env next))
                        (WriteItem_GetResultOfQuery env next))
             (WriteItem_GetResultsOfQueries env next) of
        (Returned, s') \<Rightarrow> (Normal, s')
      | r \<Rightarrow> r)"

subsection \<open>WriteLoop\<close>

text \<open>
  The range-for over \<open>m_Queues.Writes\<close>: it skips the queues that are suppressed or
  empty, and at the first other queue it takes the front item out. The result is the
  key of that queue, the item, and the map after the pop.
\<close>

fun WriteLoop_scan ::
    "QueryPriority set \<Rightarrow> (QueryPriority \<times> WriteQueueItem list) list \<Rightarrow>
     (QueryPriority \<times> WriteQueueItem \<times> (QueryPriority \<times> WriteQueueItem list) list) option" where
  "WriteLoop_scan suppressed [] = None"
| "WriteLoop_scan suppressed ((k, queue) # rest) =
     (case queue of
        next # queue' \<Rightarrow>
          if k \<in> suppressed
          then map_option (\<lambda>(p, item, rest'). (p, item, (k, queue) # rest'))
                 (WriteLoop_scan suppressed rest)
          else Some (k, next, (k, queue') # rest)
      | [] \<Rightarrow>
          map_option (\<lambda>(p, item, rest'). (p, item, (k, queue) # rest'))
            (WriteLoop_scan suppressed rest))"

text \<open>
  One pass from the label WriteFirstOfHighestPrio: either an item is found, taken and
  written, or the scan finds nothing and the signal is cleared.
\<close>

definition WriteLoop_pass :: "io \<Rightarrow> RedisConnection \<Rightarrow> exit \<times> RedisConnection" where
  "WriteLoop_pass env s =
     (case WriteLoop_scan (m_SuppressedQueryKinds s) (Writes s) of
        None \<Rightarrow> (Normal, s\<lparr>m_QueuedWrites := False\<rparr>)
      | Some (p, next, writes) \<Rightarrow> WriteItem env next (s\<lparr>Writes := writes\<rparr>))"

subsection \<open>ReadLoop\<close>

text \<open>The three inner loops \<open>for (auto i (item.Amount); i; --i)\<close>.\<close>

fun ReadLoop_Ignore :: "io \<Rightarrow> nat \<Rightarrow> RedisConnection \<Rightarrow> exit \<times> RedisConnection" where
  "ReadLoop_Ignore env 0 s = (Normal, s)"
| "ReadLoop_Ignore env (Suc i) s =
     (case ReadOne env s of
        (Inr reply, s1) \<Rightarrow> ReadLoop_Ignore env i s1
      | (Inl x, s1) \<Rightarrow> (x, s1))"

definition fired_and_forgotten_receive :: "exn \<Rightarrow> LogEntry" where
  "fired_and_forgotten_receive e =
     (LogCritical, ''IcingaDB'',
      (case e of
         std_exception what \<Rightarrow>
           ''Error during receiving the response to a query which has been fired and forgotten: ''
             @ what
       | _ \<Rightarrow> ''Error during receiving the response to a query which has been fired and forgotten''))"

fun ReadLoop_Deliver :: "io \<Rightarrow> nat \<Rightarrow> RedisConnection \<Rightarrow> exit \<times> RedisConnection" where
  "ReadLoop_Deliver env 0 s = (Normal, s)"
| "ReadLoop_Deliver env (Suc i) s =
     (case ReplyPromises s of
        [] \<Rightarrow> (Undefined, s)
      | promise # promises \<Rightarrow>
          (case ReadOne env (s\<lparr>ReplyPromises := promises\<rparr>) of
             (Inl (Thrown forced_unwind), s1) \<Rightarrow> (Thrown forced_unwind, s1)
           | (Inl (Thrown e), s1) \<Rightarrow>
               (case set_exception promise e s1 of
                  (Normal, s2) \<Rightarrow> ReadLoop_Deliver env i s2
                | (x, s2) \<Rightarrow> (x, s2))
           | (Inl x, s1) \<Rightarrow> (x, s1)
           | (Inr reply, s1) \<Rightarrow>
               (case set_value promise reply s1 of
                  (Normal, s2) \<Rightarrow> ReadLoop_Deliver env i s2
                | (x, s2) \<Rightarrow> (x, s2))))"

text \<open>
  In the loop of DeliverBulk the handler's \<open>continue\<close> goes on with the next round of
  this loop, so the replies received before and after a failure are still collected.
\<close>

fun ReadLoop_DeliverBulk_for ::
    "io \<Rightarrow> nat \<Rightarrow> nat \<Rightarrow> Replies \<Rightarrow> RedisConnection \<Rightarrow> exit \<times> Replies \<times> RedisConnection" where
  "ReadLoop_DeliverBulk_for env promise 0 replies s = (Normal, replies, s)"
| "ReadLoop_DeliverBulk_for env promise (Suc i) replies s =
     (case ReadOne env s of
        (Inl (Thrown forced_unwind), s1) \<Rightarrow> (Thrown forced_unwind, replies, s1)
      | (Inl (Thrown e), s1) \<Rightarrow>
          (case set_exception promise e s1 of
             (Normal, s2) \<Rightarrow> ReadLoop_DeliverBulk_for env promise i replies s2
           | (x, s2) \<Rightarrow> (x, replies, s2))
      | (Inl x, s1) \<Rightarrow> (x, replies, s1)
      | (Inr reply, s1) \<Rightarrow> ReadLoop_DeliverBulk_for env promise i (replies @ [reply]) s1)"

definition ReadLoop_DeliverBulk :: "io \<Rightarrow> nat \<Rightarrow> RedisConnection \<Rightarrow> exit \<times> RedisConnection" where
  "ReadLoop_DeliverBulk env amount s =
     (case RepliesPromises s of
        [] \<Rightarrow> (Undefined, s)
      | promise # promises \<Rightarrow>
          (case ReadLoop_DeliverBulk_for env promise amount [] (s\<lparr>RepliesPromises := promises\<rparr>) of
             (Normal, replies, s1) \<Rightarrow> set_values promise replies s1
           | (x, replies, s1) \<Rightarrow> (x, s1)))"

text \<open>
  The body of \<open>while (!m_Queues.FutureResponseActions.empty())\<close>: the front record is
  taken off the ledger and handled by its action. The handlers of Ignore log and go on
  with the next record.
\<close>

definition ReadLoop_item ::
    "io \<Rightarrow> FutureResponseAction \<Rightarrow> RedisConnection \<Rightarrow> exit \<times> RedisConnection" where
  "ReadLoop_item env item s =
     (case Action item of
        Ignore \<Rightarrow>
          (case ReadLoop_Ignore env (Amount item) s of
             (Thrown forced_unwind, s1) \<Rightarrow> (Thrown forced_unwind, s1)
           | (Thrown e, s1) \<Rightarrow> (Normal, Logged_add (fired_and_forgotten_receive e) s1)
           | r \<Rightarrow> r)
      | Deliver \<Rightarrow> ReadLoop_Deliver env (Amount item) s
      | DeliverBulk \<Rightarrow> ReadLoop_DeliverBulk env (Amount item) s)"

text \<open>
  One step of the reader: with a record on the ledger, one round of the while loop;
  with an empty ledger, the loop is left and the signal cleared.
\<close>

definition ReadLoop_step :: "io \<Rightarrow> RedisConnection \<Rightarrow> exit \<times> RedisConnection" where
  "ReadLoop_step env s =
     (case FutureResponseActions s of
        [] \<Rightarrow> (Normal, s\<lparr>m_QueuedReads := False\<rparr>)
      | item # ledger \<Rightarrow> ReadLoop_item env item (s\<lparr>FutureResponseActions := ledger\<rparr>))"


subsection \<open>Connect\<close>







subsection \<open>The connection at work\<close>

text \<open>
  Everything that happens on the strand is a sequence of events: a producer calls an
  operation, the strand runs a posted closure, the writer makes one pass from its
  label, the reader makes one round of its while loop. The writer's loop is the
  repetition of its pass, with whatever the strand runs while a send is suspended in
  between; likewise the reader's. A coroutine whose signal is not set waits, so its
  event changes nothing. A run stops at the first event that does not end normally.
\<close>

datatype event =
    Call_FireAndForgetQuery Query QueryPriority
  | Call_FireAndForgetQueries Queries QueryPriority
  | Call_GetResultOfQuery Query QueryPriority
  | Call_GetResultsOfQueries Queries QueryPriority
  | Call_SuppressQueryKind QueryPriority
  | Call_UnsuppressQueryKind QueryPriority
  | Run_posted
  | Writer_pass
  | Reader_round

fun happen :: "io \<Rightarrow> event \<Rightarrow> RedisConnection \<Rightarrow> exit \<times> RedisConnection" where
  "happen env (Call_FireAndForgetQuery query priority) s =
     (Normal, RedisConnection_FireAndForgetQuery query priority s)"
| "happen env (Call_FireAndForgetQueries queries priority) s =
     (Normal, RedisConnection_FireAndForgetQueries queries priority s)"
| "happen env (Call_GetResultOfQuery query priority) s =
     (Normal, snd (RedisConnection_GetResultOfQuery query priority s))"
| "happen env (Call_GetResultsOfQueries queries priority) s =
     (Normal, snd (RedisConnection_GetResultsOfQueries queries priority s))"
| "happen env (Call_SuppressQueryKind kind) s = (Normal, RedisConnection_SuppressQueryKind kind s)"
| "happen env (Call_UnsuppressQueryKind kind) s =
     (Normal, RedisConnection_UnsuppressQueryKind kind s)"
| "happen env Run_posted s = (Normal, Strand_run s)"
| "happen env Writer_pass s = (if m_QueuedWrites s then WriteLoop_pass env s else (Normal, s))"
| "happen env Reader_round s = (if m_QueuedReads s then ReadLoop_step env s else (Normal, s))"

fun run :: "io \<Rightarrow> event list \<Rightarrow> RedisConnection \<Rightarrow> exit \<times> RedisConnection" where
  "run env [] s = (Normal, s)"
| "run env (e # es) s = and_then (happen env e s) (run env es)"

subsection \<open>Predicates on states\<close>

text \<open>An environment in which no call of the transport ever raises.\<close>

definition io_ok :: "(Query list \<Rightarrow> Reply) \<Rightarrow> io" where
  "io_ok srv =
     \<lparr>write_fail = (\<lambda>k. None), read_fail = (\<lambda>k. None), server = srv,
      connect_fail = (\<lambda>k. None), callback_fail = (\<lambda>k. None), timer_fail = (\<lambda>k. None)\<rparr>"




text \<open>No two neighbours of a ledger are both Ignore, and no two are both Deliver.\<close>

fun coalesced :: "FutureResponseAction list \<Rightarrow> bool" where
  "coalesced (a # b # ledger) =
     (\<not> (Action a = Ignore \<and> Action b = Ignore) \<and>
      \<not> (Action a = Deliver \<and> Action b = Deliver) \<and> coalesced (b # ledger))"
| "coalesced ledger = True"

text \<open>
  Appending to the ledger in the words of the spec (section 4.7): an appended Ignore or
  Deliver is added to a tail of the same action, everything else is a new record.
\<close>

definition ledger_append ::
    "ResponseAction \<Rightarrow> nat \<Rightarrow> FutureResponseAction list \<Rightarrow> FutureResponseAction list" where
  "ledger_append action k ledger =
     (case (action, rev ledger) of
        (Ignore, tail # front) \<Rightarrow>
          (if Action tail = Ignore
           then rev front @ [\<lparr>Amount = Amount tail + k, Action = Ignore\<rparr>]
           else ledger @ [\<lparr>Amount = k, Action = Ignore\<rparr>])
      | (Deliver, tail # front) \<Rightarrow>
          (if Action tail = Deliver
           then rev front @ [\<lparr>Amount = Amount tail + k, Action = Deliver\<rparr>]
           else ledger @ [\<lparr>Amount = k, Action = Deliver\<rparr>])
      | _ \<Rightarrow> ledger @ [\<lparr>Amount = k, Action = action\<rparr>])"

text \<open>Every record of the ledger stands for at least one reply.\<close>

definition Amounts_positive :: "FutureResponseAction list \<Rightarrow> bool" where
  "Amounts_positive ledger = list_all (\<lambda>a. 1 \<le> Amount a) ledger"

text \<open>An item that carries no empty list of queries.\<close>

definition no_empty_list :: "WriteQueueItem \<Rightarrow> bool" where
  "no_empty_list next \<longleftrightarrow>
     FireAndForgetQueries next \<noteq> Some [] \<and>
     (case GetResultsOfQueries next of Some (queries, promise) \<Rightarrow> queries \<noteq> [] | None \<Rightarrow> True)"

text \<open>An environment and a state used to run the theorems on concrete inputs.\<close>

definition example_env :: io where
  "example_env = io_ok (\<lambda>wire. BulkString (Some (concat (last wire))))"

definition example_state :: RedisConnection where
  "example_state =
     snd (run example_env
            [Call_GetResultOfQuery [''GET'', ''k''] 0, Call_FireAndForgetQuery [''DEL'', ''k''] 0,
             Run_posted, Run_posted, Writer_pass, Writer_pass]
            (RedisConnection_new ''localhost'' 6379 []))"

text \<open>Environments in which the k-th send, or the k-th receive, raises \<open>e\<close>.\<close>

definition failing_send :: "nat \<Rightarrow> exn \<Rightarrow> io" where
  "failing_send k e = example_env\<lparr>write_fail := (\<lambda>i. if i = k then Some e else None)\<rparr>"

definition failing_receive :: "nat \<Rightarrow> exn \<Rightarrow> io" where
  "failing_receive k e = example_env\<lparr>read_fail := (\<lambda>i. if i = k then Some e else None)\<rparr>"

text \<open>No item that waits on the strand or in a write queue carries an empty list.\<close>

fun posted_no_empty_list :: "Posted \<Rightarrow> bool" where
  "posted_no_empty_list (EmplaceWrite priority item) = no_empty_list item"
| "posted_no_empty_list f = True"

definition queued_no_empty_list :: "RedisConnection \<Rightarrow> bool" where
  "queued_no_empty_list s \<longleftrightarrow>
     list_all posted_no_empty_list (Strand s) \<and>
     list_all (\<lambda>(k, queue). list_all no_empty_list queue) (Writes s)"

text \<open>A call of an operation that does not pass an empty list.\<close>

fun call_no_empty_list :: "event \<Rightarrow> bool" where
  "call_no_empty_list (Call_FireAndForgetQueries queries priority) = (queries \<noteq> [])"
| "call_no_empty_list (Call_GetResultsOfQueries queries priority) = (queries \<noteq> [])"
| "call_no_empty_list e = True"

text \<open>
  The queue that \<open>m_Queues.Writes\<close> holds for a priority (empty when the map has no
  such key), and the order of the keys that a std::map keeps.
\<close>

definition queue_of :: "(QueryPriority \<times> WriteQueueItem list) list \<Rightarrow> QueryPriority \<Rightarrow> WriteQueueItem list" where
  "queue_of writes priority = (case map_of writes priority of Some queue \<Rightarrow> queue | None \<Rightarrow> [])"

definition keys_ascending :: "(QueryPriority \<times> WriteQueueItem list) list \<Rightarrow> bool" where
  "keys_ascending writes = sorted_wrt (<) (map fst writes)"

text \<open>
  A state in which class 0 is suppressed and holds one item, and class 1 holds another.
\<close>

definition example_suppressed :: RedisConnection where
  "example_suppressed =
     snd (run example_env
            [Call_SuppressQueryKind 0, Call_FireAndForgetQuery [''SET'', ''a'', ''1''] 0,
             Call_FireAndForgetQuery [''SET'', ''b'', ''2''] 1, Run_posted, Run_posted, Run_posted]
            (RedisConnection_new ''localhost'' 6379 []))"

text \<open>
  None of the calls of the transport numbered from \<open>a\<close> up to, not including, \<open>b\<close>
  raises the unwind exception.
\<close>

definition no_unwind :: "(nat \<Rightarrow> exn option) \<Rightarrow> nat \<Rightarrow> nat \<Rightarrow> bool" where
  "no_unwind fail a b \<longleftrightarrow> (\<forall>k. a \<le> k \<and> k < b \<longrightarrow> fail k \<noteq> Some forced_unwind)"

text \<open>No sink holds the unwind exception in the second state unless it did in the first.\<close>

definition no_sink_unwound :: "RedisConnection \<Rightarrow> RedisConnection \<Rightarrow> bool" where
  "no_sink_unwound s s' \<longleftrightarrow>
     (\<forall>promise. Promises s' promise = Some (holds_exception forced_unwind) \<longrightarrow>
                Promises s promise = Some (holds_exception forced_unwind))"

text \<open>What a block of WriteItem guarantees about the unwind exception.\<close>

definition unwinds_through :: "io \<Rightarrow> RedisConnection \<Rightarrow> exit \<Rightarrow> RedisConnection \<Rightarrow> bool" where
  "unwinds_through env s x s' \<longleftrightarrow>
     WriteCalls s \<le> WriteCalls s' \<and>
     (x \<noteq> Thrown forced_unwind \<longrightarrow> no_unwind (write_fail env) (WriteCalls s) (WriteCalls s')) \<and>
     (x = Thrown forced_unwind \<or> x = Normal \<longrightarrow> Logged s' = Logged s \<and> Promises s' = Promises s) \<and>
     no_sink_unwound s s'"







section \<open>Properties\<close>

subsection \<open>The logged form of a query\<close>

lemma LogQuery_loop_redacted:
  "i \<le> 7 \<Longrightarrow>
   LogQuery_loop i query msg =
     msg @ concat (map redacted_arg (take (7 - i) query)) @
       (if length query > 7 - i then '' ...'' else [])"
proof (induction query arbitrary: i msg)
  case Nil
  then show ?case by simp
next
  case (Cons arg rest)
  show ?case
  proof (cases "i = 7")
    case True
    then show ?thesis by simp
  next
    case False
    with Cons.prems have lt: "i < 7" by simp
    then obtain j where j: "7 - i = Suc j" "7 - Suc i = j"
      by (cases "7 - i") auto
    from lt have "Suc i \<le> 7" by simp
    from Cons.IH [OF this] lt j show ?thesis
      by (simp add: redacted_arg_def)
  qed
qed

text \<open>
  Claim C9. For every query passed to one of the four submission operations, the entry
  written to the log at notice level is the operation's prefix followed by the redacted
  form of the query: the first 7 arguments at most, each between apostrophes, an
  argument of more than 64 bytes cut to its first 61 bytes followed by \<open>...\<close>, and a
  trailing \<open> ...\<close> when the query has more than 7 arguments.
\<close>

theorem LogQuery_is_redacted_query:
  "LogQuery query msg = msg @ redacted_query query
   \<and> Logged (RedisConnection_FireAndForgetQuery query priority s) =
       Logged s @ [(LogNotice, ''IcingaDB'', ''Firing and forgetting query:'' @ redacted_query query)]
   \<and> Logged (RedisConnection_FireAndForgetQueries queries priority s) =
       Logged s @ map (\<lambda>q. (LogNotice, ''IcingaDB'',
                              ''Firing and forgetting query:'' @ redacted_query q)) queries
   \<and> Logged (snd (RedisConnection_GetResultOfQuery query priority s)) =
       Logged s @ [(LogNotice, ''IcingaDB'', ''Executing query:'' @ redacted_query query)]
   \<and> Logged (snd (RedisConnection_GetResultsOfQueries queries priority s)) =
       Logged s @ map (\<lambda>q. (LogNotice, ''IcingaDB'', ''Executing query:'' @ redacted_query q)) queries"
proof -
  have red: "LogQuery q m = m @ redacted_query q" for q m
    using LogQuery_loop_redacted [of 0 q m]
    by (simp add: LogQuery_def redacted_query_def)
  show ?thesis
    by (simp add: red RedisConnection_FireAndForgetQuery_def
        RedisConnection_FireAndForgetQueries_def RedisConnection_GetResultOfQuery_def
        RedisConnection_GetResultsOfQueries_def post_def Logged_add_def LogQueries_def Let_def)
qed

subsection \<open>What the primitives change\<close>

lemma WriteOne_cases:
  "WriteOne env q s = (x, s') \<Longrightarrow>
     (x = Normal \<and> write_fail env (WriteCalls s) = None \<and>
        s' = s\<lparr>WriteCalls := Suc (WriteCalls s), Wire := Wire s @ [q]\<rparr>) \<or>
     (\<exists>e. x = Thrown e \<and> write_fail env (WriteCalls s) = Some e \<and>
        s' = s\<lparr>WriteCalls := Suc (WriteCalls s)\<rparr>)"
  by (auto simp: WriteOne_def Let_def split: option.splits)

lemma WriteItem_for_frame:
  "WriteItem_for env qs i s = (x, j, s') \<Longrightarrow> \<exists>c w. s' = s\<lparr>WriteCalls := c, Wire := w\<rparr>"
proof (induction qs arbitrary: i s)
  case Nil
  then have "s' = s\<lparr>WriteCalls := WriteCalls s, Wire := Wire s\<rparr>" by simp
  then show ?case by blast
next
  case (Cons q qs)
  obtain y s1 where w: "WriteOne env q s = (y, s1)" by (cases "WriteOne env q s")
  from WriteOne_cases [OF w] show ?case
  proof
    assume a: "y = Normal \<and> write_fail env (WriteCalls s) = None \<and>
        s1 = s\<lparr>WriteCalls := Suc (WriteCalls s), Wire := Wire s @ [q]\<rparr>"
    with Cons.prems w have "WriteItem_for env qs (Suc i) s1 = (x, j, s')" by simp
    from Cons.IH [OF this] obtain c w where "s' = s1\<lparr>WriteCalls := c, Wire := w\<rparr>" by blast
    with a have "s' = s\<lparr>WriteCalls := c, Wire := w\<rparr>" by simp
    then show ?thesis by blast
  next
    assume "\<exists>e. y = Thrown e \<and> write_fail env (WriteCalls s) = Some e \<and>
        s1 = s\<lparr>WriteCalls := Suc (WriteCalls s)\<rparr>"
    then obtain e where e: "y = Thrown e" "s1 = s\<lparr>WriteCalls := Suc (WriteCalls s)\<rparr>" by blast
    with Cons.prems w have "s' = s1" by simp
    with e have "s' = s\<lparr>WriteCalls := Suc (WriteCalls s), Wire := Wire s\<rparr>" by simp
    then show ?thesis by blast
  qed
qed

lemma WriteItem_for_exit:
  "WriteItem_for env qs i s = (x, j, s') \<Longrightarrow> x = Normal \<or> (\<exists>e. x = Thrown e)"
proof (induction qs arbitrary: i s)
  case Nil then show ?case by simp
next
  case (Cons q qs)
  obtain y s1 where w: "WriteOne env q s = (y, s1)" by (cases "WriteOne env q s")
  from WriteOne_cases [OF w] Cons.prems w Cons.IH [of "Suc i" s1] show ?case by auto
qed

lemma promise_set_cases:
  "promise_set p v s = (x, s') \<Longrightarrow>
     (x = Normal \<and> Promises s p = None \<and> s' = s\<lparr>Promises := (Promises s)(p \<mapsto> v)\<rparr>) \<or>
     (x = Thrown future_error \<and> Promises s p \<noteq> None \<and> s' = s)"
  by (auto simp: promise_set_def split: option.splits)

lemma coalesced_snoc:
  "coalesced (l @ [a]) \<longleftrightarrow>
     coalesced l \<and> (l = [] \<or> (\<not> (Action (last l) = Ignore \<and> Action a = Ignore) \<and>
                               \<not> (Action (last l) = Deliver \<and> Action a = Deliver)))"
  by (induction l rule: coalesced.induct) auto

lemma coalesced_butlast: "coalesced l \<Longrightarrow> coalesced (butlast l)"
  by (induction l rule: coalesced.induct) auto

lemma coalesced_tl: "coalesced (a # l) \<Longrightarrow> coalesced l"
  by (cases l) auto

lemma coalesced_emplace_or_add: "coalesced l \<Longrightarrow> coalesced (emplace_or_add n a l)"
proof (cases l rule: rev_cases)
  case Nil then show ?thesis by (simp add: emplace_or_add_def)
next
  case (snoc l' b)
  assume c: "coalesced l"
  have two: "l' @ [b, z] = (l' @ [b]) @ [z]" for z by simp
  show ?thesis
  proof (cases "Action b = a")
    case True
    with snoc c show ?thesis
      by (auto simp: emplace_or_add_def coalesced_snoc)
  next
    case False
    have "coalesced ((l' @ [b]) @ [\<lparr>Amount = n, Action = a\<rparr>])"
      unfolding coalesced_snoc [of "l' @ [b]"] using c snoc False by auto
    with snoc False show ?thesis
      by (simp add: emplace_or_add_def)
  qed
qed

lemma coalesced_DeliverBulk:
  "coalesced l \<Longrightarrow> coalesced (l @ [\<lparr>Amount = n, Action = DeliverBulk\<rparr>])"
  by (simp add: coalesced_snoc)

lemma emplace_or_add_ledger_append:
  "a \<noteq> DeliverBulk \<Longrightarrow> emplace_or_add n a l = ledger_append a n l"
  by (cases l rule: rev_cases; cases a) (auto simp: emplace_or_add_def ledger_append_def)



lemma Amounts_positive_emplace_or_add:
  "Amounts_positive l \<Longrightarrow> 1 \<le> n \<Longrightarrow> Amounts_positive (emplace_or_add n a l)"
  by (cases l rule: rev_cases) (auto simp: emplace_or_add_def Amounts_positive_def)

lemma Amounts_positive_emplace_or_add_Suc0:
  "Amounts_positive l \<Longrightarrow> Amounts_positive (emplace_or_add (Suc 0) a l)"
  by (cases l rule: rev_cases) (auto simp: emplace_or_add_def Amounts_positive_def)

lemma and_then_preserves:
  assumes "P (snd r)" and "\<And>s. P s \<Longrightarrow> P (snd (f s))"
  shows "P (snd (and_then r f))"
  using assms by (cases r) (auto simp: and_then_def split: exit.splits)

lemma WriteItem_preserves:
  assumes "\<And>s. P s \<Longrightarrow> P (snd (WriteItem_FireAndForgetQuery env next s))"
    and "\<And>s. P s \<Longrightarrow> P (snd (WriteItem_FireAndForgetQueries env next s))"
    and "\<And>s. P s \<Longrightarrow> P (snd (WriteItem_GetResultOfQuery env next s))"
    and "\<And>s. P s \<Longrightarrow> P (snd (WriteItem_GetResultsOfQueries env next s))"
    and "P s"
  shows "P (snd (WriteItem env next s))"
proof -
  let ?r = "and_then (and_then (and_then (WriteItem_FireAndForgetQuery env next s)
                                  (WriteItem_FireAndForgetQueries env next))
                        (WriteItem_GetResultOfQuery env next))
             (WriteItem_GetResultsOfQueries env next)"
  have 1: "P (snd (WriteItem_FireAndForgetQuery env next s))"
    by (rule assms(1) [OF assms(5)])
  have 2: "P (snd (and_then (WriteItem_FireAndForgetQuery env next s)
                     (WriteItem_FireAndForgetQueries env next)))"
    by (rule and_then_preserves [of P, OF 1 assms(2)])
  have 3: "P (snd (and_then (and_then (WriteItem_FireAndForgetQuery env next s)
                     (WriteItem_FireAndForgetQueries env next))
                     (WriteItem_GetResultOfQuery env next)))"
    by (rule and_then_preserves [of P, OF 2 assms(3)])
  have "P (snd ?r)"
    by (rule and_then_preserves [of P, OF 3 assms(4)])
  moreover have "snd (WriteItem env next s) = snd ?r"
    by (cases ?r) (auto simp: WriteItem_def split: exit.splits)
  ultimately show ?thesis by simp
qed

text \<open>What a block of WriteItem can do to the ledger and the two queues of promises.\<close>

lemma WriteItem_FireAndForgetQuery_queues:
  assumes "WriteItem_FireAndForgetQuery env next s = (x, s')"
  shows "ReplyPromises s' = ReplyPromises s \<and> RepliesPromises s' = RepliesPromises s \<and>
     (FutureResponseActions s' = FutureResponseActions s \<or>
      FutureResponseActions s' = emplace_or_add 1 Ignore (FutureResponseActions s))"
proof (cases "FireAndForgetQuery next")
  case None
  with assms show ?thesis by (simp add: WriteItem_FireAndForgetQuery_def)
next
  case (Some item)
  obtain y s1 where w: "WriteOne env item s = (y, s1)" by (cases "WriteOne env item s")
  from WriteOne_cases [OF w] show ?thesis
  proof (elim disjE exE conjE)
    assume "y = Normal" "s1 = s\<lparr>WriteCalls := Suc (WriteCalls s), Wire := Wire s @ [item]\<rparr>"
    with assms Some w show ?thesis
      by (simp add: WriteItem_FireAndForgetQuery_def) auto
  next
    fix e assume "y = Thrown e" "s1 = s\<lparr>WriteCalls := Suc (WriteCalls s)\<rparr>"
    with assms Some w show ?thesis
      by (cases e) (auto simp add: WriteItem_FireAndForgetQuery_def Logged_add_def)
  qed
qed

lemma WriteItem_GetResultOfQuery_queues:
  assumes "WriteItem_GetResultOfQuery env next s = (x, s')"
  shows "RepliesPromises s' = RepliesPromises s \<and>
     (FutureResponseActions s' = FutureResponseActions s \<and> ReplyPromises s' = ReplyPromises s \<or>
      (\<exists>promise. FutureResponseActions s' = emplace_or_add 1 Deliver (FutureResponseActions s) \<and>
         ReplyPromises s' = ReplyPromises s @ [promise]))"
proof (cases "GetResultOfQuery next")
  case None
  with assms show ?thesis by (simp add: WriteItem_GetResultOfQuery_def)
next
  case (Some a)
  obtain query promise where a: "a = (query, promise)" by (cases a)
  obtain y s1 where w: "WriteOne env query s = (y, s1)" by (cases "WriteOne env query s")
  from WriteOne_cases [OF w] show ?thesis
  proof (elim disjE exE conjE)
    assume "y = Normal" "s1 = s\<lparr>WriteCalls := Suc (WriteCalls s), Wire := Wire s @ [query]\<rparr>"
    with assms Some a w show ?thesis
      by (simp add: WriteItem_GetResultOfQuery_def) auto
  next
    fix e assume e: "y = Thrown e" "s1 = s\<lparr>WriteCalls := Suc (WriteCalls s)\<rparr>"
    obtain z s2 where p: "set_exception promise e s1 = (z, s2)"
      by (cases "set_exception promise e s1")
    from promise_set_cases [OF p [unfolded set_exception_def]] e assms Some a w p
    show ?thesis
      by (cases e) (auto simp add: WriteItem_GetResultOfQuery_def)
  qed
qed

lemma WriteItem_FireAndForgetQueries_queues:
  assumes "WriteItem_FireAndForgetQueries env next s = (x, s')"
  shows "ReplyPromises s' = ReplyPromises s \<and> RepliesPromises s' = RepliesPromises s \<and>
     (FutureResponseActions s' = FutureResponseActions s \<or>
      (\<exists>item. FireAndForgetQueries next = Some item \<and>
         FutureResponseActions s' = emplace_or_add (length item) Ignore (FutureResponseActions s)))"
proof (cases "FireAndForgetQueries next")
  case None
  with assms show ?thesis by (simp add: WriteItem_FireAndForgetQueries_def)
next
  case (Some item)
  obtain y i s1 where f: "WriteItem_for env item 0 s = (y, i, s1)"
    by (cases "WriteItem_for env item 0 s")
  from WriteItem_for_frame [OF f] obtain c w where "s1 = s\<lparr>WriteCalls := c, Wire := w\<rparr>"
    by blast
  with assms Some f show ?thesis
    by (auto simp: WriteItem_FireAndForgetQueries_def Logged_add_def
        split: exit.splits exn.splits if_splits)
qed

lemma WriteItem_GetResultsOfQueries_queues:
  assumes "WriteItem_GetResultsOfQueries env next s = (x, s')"
  shows "ReplyPromises s' = ReplyPromises s \<and>
     (FutureResponseActions s' = FutureResponseActions s \<and> RepliesPromises s' = RepliesPromises s \<or>
      (\<exists>queries promise. GetResultsOfQueries next = Some (queries, promise) \<and>
         FutureResponseActions s' =
           FutureResponseActions s @ [\<lparr>Amount = length queries, Action = DeliverBulk\<rparr>] \<and>
         RepliesPromises s' = RepliesPromises s @ [promise]))"
proof (cases "GetResultsOfQueries next")
  case None
  with assms show ?thesis by (simp add: WriteItem_GetResultsOfQueries_def)
next
  case (Some a)
  obtain queries promise where a: "a = (queries, promise)" by (cases a)
  obtain y i s1 where f: "WriteItem_for env queries 0 s = (y, i, s1)"
    by (cases "WriteItem_for env queries 0 s")
  from WriteItem_for_frame [OF f] obtain c w where "s1 = s\<lparr>WriteCalls := c, Wire := w\<rparr>"
    by blast
  with assms Some a f show ?thesis
    by (auto simp: WriteItem_GetResultsOfQueries_def set_exception_def promise_set_def
        split: exit.splits exn.splits option.splits)
qed


lemma WriteItem_coalesced:
  "coalesced (FutureResponseActions s) \<Longrightarrow>
   coalesced (FutureResponseActions (snd (WriteItem env next s)))"
proof (rule WriteItem_preserves [where P = "\<lambda>s. coalesced (FutureResponseActions s)"])
  fix s :: RedisConnection assume "coalesced (FutureResponseActions s)"
  then show "coalesced (FutureResponseActions (snd (WriteItem_FireAndForgetQuery env next s)))"
    using WriteItem_FireAndForgetQuery_queues [OF surjective_pairing, of env "next" s]
    by (auto simp: coalesced_emplace_or_add)
next
  fix s :: RedisConnection assume "coalesced (FutureResponseActions s)"
  then show "coalesced (FutureResponseActions (snd (WriteItem_FireAndForgetQueries env next s)))"
    using WriteItem_FireAndForgetQueries_queues [OF surjective_pairing, of env "next" s]
    by (auto simp: coalesced_emplace_or_add)
next
  fix s :: RedisConnection assume "coalesced (FutureResponseActions s)"
  then show "coalesced (FutureResponseActions (snd (WriteItem_GetResultOfQuery env next s)))"
    using WriteItem_GetResultOfQuery_queues [OF surjective_pairing, of env "next" s]
    by (auto simp: coalesced_emplace_or_add)
next
  fix s :: RedisConnection assume "coalesced (FutureResponseActions s)"
  then show "coalesced (FutureResponseActions (snd (WriteItem_GetResultsOfQueries env next s)))"
    using WriteItem_GetResultsOfQueries_queues [OF surjective_pairing, of env "next" s]
    by (auto simp: coalesced_DeliverBulk)
qed

lemma WriteItem_Amounts_positive:
  assumes ne: "no_empty_list next"
  shows "Amounts_positive (FutureResponseActions s) \<Longrightarrow>
   Amounts_positive (FutureResponseActions (snd (WriteItem env next s)))"
proof (rule WriteItem_preserves [where P = "\<lambda>s. Amounts_positive (FutureResponseActions s)"])
  fix s :: RedisConnection assume "Amounts_positive (FutureResponseActions s)"
  then show "Amounts_positive (FutureResponseActions (snd (WriteItem_FireAndForgetQuery env next s)))"
    using WriteItem_FireAndForgetQuery_queues [OF surjective_pairing, of env "next" s]
    by (auto simp: Amounts_positive_emplace_or_add)
next
  fix s :: RedisConnection assume "Amounts_positive (FutureResponseActions s)"
  then show "Amounts_positive (FutureResponseActions (snd (WriteItem_FireAndForgetQueries env next s)))"
    using WriteItem_FireAndForgetQueries_queues [OF surjective_pairing, of env "next" s] ne
    by (cases "FireAndForgetQueries next")
       (auto simp: no_empty_list_def intro!: Amounts_positive_emplace_or_add
          simp: Suc_le_eq)
next
  fix s :: RedisConnection assume "Amounts_positive (FutureResponseActions s)"
  then show "Amounts_positive (FutureResponseActions (snd (WriteItem_GetResultOfQuery env next s)))"
    using WriteItem_GetResultOfQuery_queues [OF surjective_pairing, of env "next" s]
    by (auto simp: Amounts_positive_emplace_or_add)
next
  fix s :: RedisConnection assume "Amounts_positive (FutureResponseActions s)"
  then show "Amounts_positive (FutureResponseActions (snd (WriteItem_GetResultsOfQueries env next s)))"
    using WriteItem_GetResultsOfQueries_queues [OF surjective_pairing, of env "next" s] ne
    by (auto simp: no_empty_list_def Amounts_positive_def Suc_le_eq)
qed

lemma ReadOne_cases:
  "ReadOne env s = (r, s') \<Longrightarrow>
     (\<exists>e. r = Inl (Thrown e) \<and> read_fail env (ReadCalls s) = Some e \<and>
          s' = s\<lparr>ReadCalls := Suc (ReadCalls s)\<rparr>) \<or>
     (r = Inr (reply_to env (Wire s) (ReadCalls s)) \<and> read_fail env (ReadCalls s) = None \<and>
          ReadCalls s < length (Wire s) \<and> s' = s\<lparr>ReadCalls := Suc (ReadCalls s)\<rparr>) \<or>
     (r = Inl Blocked \<and> read_fail env (ReadCalls s) = None \<and>
          \<not> ReadCalls s < length (Wire s) \<and> s' = s)"
  by (auto simp: ReadOne_def Let_def split: option.splits if_splits)

lemma ReadLoop_Ignore_frame:
  "ReadLoop_Ignore env n s = (x, s') \<Longrightarrow> \<exists>c. s' = s\<lparr>ReadCalls := c\<rparr>"
proof (induction n arbitrary: s)
  case 0
  then have "s' = s\<lparr>ReadCalls := ReadCalls s\<rparr>" by simp
  then show ?case by blast
next
  case (Suc n)
  obtain r s1 where r: "ReadOne env s = (r, s1)" by (cases "ReadOne env s")
  from ReadOne_cases [OF r] show ?case
  proof (elim disjE exE conjE)
    fix e assume "r = Inl (Thrown e)" "s1 = s\<lparr>ReadCalls := Suc (ReadCalls s)\<rparr>"
    with Suc.prems r show ?thesis by auto
  next
    assume a: "r = Inr (reply_to env (Wire s) (ReadCalls s))"
      "s1 = s\<lparr>ReadCalls := Suc (ReadCalls s)\<rparr>"
    with Suc.prems r have "ReadLoop_Ignore env n s1 = (x, s')" by simp
    from Suc.IH [OF this] a show ?thesis by auto
  next
    assume "r = Inl Blocked" "s1 = s"
    with Suc.prems r have "s' = s\<lparr>ReadCalls := ReadCalls s\<rparr>" by simp
    then show ?thesis by blast
  qed
qed

lemma ReadLoop_Deliver_queues:
  "ReadLoop_Deliver env n s = (x, s') \<Longrightarrow>
     FutureResponseActions s' = FutureResponseActions s \<and>
     RepliesPromises s' = RepliesPromises s \<and>
     (x = Normal \<longrightarrow> n \<le> length (ReplyPromises s) \<and> ReplyPromises s' = drop n (ReplyPromises s))"
proof (induction n arbitrary: s)
  case 0
  then show ?case by simp
next
  case (Suc n)
  show ?case
  proof (cases "ReplyPromises s")
    case Nil
    with Suc.prems show ?thesis by simp
  next
    case (Cons promise promises)
    let ?s0 = "s\<lparr>ReplyPromises := promises\<rparr>"
    obtain r s1 where r: "ReadOne env ?s0 = (r, s1)" by (cases "ReadOne env ?s0")
    from ReadOne_cases [OF r] show ?thesis
    proof (elim disjE exE conjE)
      fix e assume e: "r = Inl (Thrown e)" "s1 = ?s0\<lparr>ReadCalls := Suc (ReadCalls ?s0)\<rparr>"
      obtain z s2 where p: "set_exception promise e s1 = (z, s2)"
        by (cases "set_exception promise e s1")
      show ?thesis
      proof (cases "e = forced_unwind")
        case True
        with Suc.prems Cons r e show ?thesis by auto
      next
        case False
        with Suc.prems Cons r e p
        have *: "(case z of Normal \<Rightarrow> ReadLoop_Deliver env n s2 | _ \<Rightarrow> (z, s2)) = (x, s')"
          by (cases e) (auto split: exit.splits)
        from promise_set_cases [OF p [unfolded set_exception_def]] show ?thesis
        proof (elim disjE conjE)
          assume z: "z = Normal" "s2 = s1\<lparr>Promises := (Promises s1)(promise \<mapsto> holds_exception e)\<rparr>"
          with * have "ReadLoop_Deliver env n s2 = (x, s')" by simp
          from Suc.IH [OF this] z e Cons show ?thesis by auto
        next
          assume "z = Thrown future_error" "s2 = s1"
          with * e show ?thesis by auto
        qed
      qed
    next
      assume a: "r = Inr (reply_to env (Wire ?s0) (ReadCalls ?s0))"
        "s1 = ?s0\<lparr>ReadCalls := Suc (ReadCalls ?s0)\<rparr>"
      obtain z s2 where p: "set_value promise (reply_to env (Wire ?s0) (ReadCalls ?s0)) s1 = (z, s2)"
        by (cases "set_value promise (reply_to env (Wire ?s0) (ReadCalls ?s0)) s1")
      with Suc.prems Cons r a
      have *: "(case z of Normal \<Rightarrow> ReadLoop_Deliver env n s2 | _ \<Rightarrow> (z, s2)) = (x, s')"
        by (auto split: exit.splits)
      from promise_set_cases [OF p [unfolded set_value_def]] show ?thesis
      proof (elim disjE conjE)
        assume z: "z = Normal"
          "s2 = s1\<lparr>Promises := (Promises s1)(promise \<mapsto>
                    holds_Reply (reply_to env (Wire ?s0) (ReadCalls ?s0)))\<rparr>"
        with * have "ReadLoop_Deliver env n s2 = (x, s')" by simp
        from Suc.IH [OF this] z a Cons show ?thesis by auto
      next
        assume "z = Thrown future_error" "s2 = s1"
        with * a show ?thesis by auto
      qed
    next
      assume "r = Inl Blocked" "s1 = ?s0"
      with Suc.prems Cons r show ?thesis by auto
    qed
  qed
qed

lemma ReadLoop_DeliverBulk_for_frame:
  "ReadLoop_DeliverBulk_for env promise n replies s = (x, replies', s') \<Longrightarrow>
     \<exists>c pr. s' = s\<lparr>ReadCalls := c, Promises := pr\<rparr>"
proof (induction n arbitrary: s replies)
  case 0
  then have "s' = s\<lparr>ReadCalls := ReadCalls s, Promises := Promises s\<rparr>" by simp
  then show ?case by blast
next
  case (Suc n)
  obtain r s1 where r: "ReadOne env s = (r, s1)" by (cases "ReadOne env s")
  from ReadOne_cases [OF r] show ?case
  proof (elim disjE exE conjE)
    fix e assume e: "r = Inl (Thrown e)" "s1 = s\<lparr>ReadCalls := Suc (ReadCalls s)\<rparr>"
    obtain z s2 where p: "set_exception promise e s1 = (z, s2)"
      by (cases "set_exception promise e s1")
    show ?thesis
    proof (cases "e = forced_unwind")
      case True
      with Suc.prems r e have "s' = s\<lparr>ReadCalls := Suc (ReadCalls s), Promises := Promises s\<rparr>"
        by auto
      then show ?thesis by blast
    next
      case False
      with Suc.prems r e p
      have *: "(case z of Normal \<Rightarrow> ReadLoop_DeliverBulk_for env promise n replies s2
                | _ \<Rightarrow> (z, replies, s2)) = (x, replies', s')"
        by (cases e) (auto split: exit.splits)
      from promise_set_cases [OF p [unfolded set_exception_def]] show ?thesis
      proof (elim disjE conjE)
        assume z: "z = Normal" "s2 = s1\<lparr>Promises := (Promises s1)(promise \<mapsto> holds_exception e)\<rparr>"
        with * have "ReadLoop_DeliverBulk_for env promise n replies s2 = (x, replies', s')" by simp
        from Suc.IH [OF this] obtain c pr where "s' = s2\<lparr>ReadCalls := c, Promises := pr\<rparr>"
          by blast
        with z e have "s' = s\<lparr>ReadCalls := c, Promises := pr\<rparr>" by simp
        then show ?thesis by blast
      next
        assume "z = Thrown future_error" "s2 = s1"
        with * e have "s' = s\<lparr>ReadCalls := Suc (ReadCalls s), Promises := Promises s\<rparr>" by auto
        then show ?thesis by blast
      qed
    qed
  next
    assume a: "r = Inr (reply_to env (Wire s) (ReadCalls s))"
      "s1 = s\<lparr>ReadCalls := Suc (ReadCalls s)\<rparr>"
    with Suc.prems r
    have "ReadLoop_DeliverBulk_for env promise n (replies @ [reply_to env (Wire s) (ReadCalls s)]) s1
            = (x, replies', s')" by simp
    from Suc.IH [OF this] obtain c pr where "s' = s1\<lparr>ReadCalls := c, Promises := pr\<rparr>"
      by blast
    with a have "s' = s\<lparr>ReadCalls := c, Promises := pr\<rparr>" by simp
    then show ?thesis by blast
  next
    assume "r = Inl Blocked" "s1 = s"
    with Suc.prems r have "s' = s\<lparr>ReadCalls := ReadCalls s, Promises := Promises s\<rparr>" by auto
    then show ?thesis by blast
  qed
qed

lemma ReadLoop_DeliverBulk_queues:
  assumes "ReadLoop_DeliverBulk env n s = (x, s')"
  shows "FutureResponseActions s' = FutureResponseActions s \<and>
     ReplyPromises s' = ReplyPromises s \<and>
     (x = Normal \<longrightarrow> RepliesPromises s \<noteq> [] \<and> RepliesPromises s' = tl (RepliesPromises s))"
proof (cases "RepliesPromises s")
  case Nil
  with assms show ?thesis by (simp add: ReadLoop_DeliverBulk_def)
next
  case (Cons promise promises)
  let ?s0 = "s\<lparr>RepliesPromises := promises\<rparr>"
  obtain y replies s1 where f: "ReadLoop_DeliverBulk_for env promise n [] ?s0 = (y, replies, s1)"
    by (cases "ReadLoop_DeliverBulk_for env promise n [] ?s0")
  from ReadLoop_DeliverBulk_for_frame [OF f] obtain c pr
    where s1: "s1 = ?s0\<lparr>ReadCalls := c, Promises := pr\<rparr>" by blast
  show ?thesis
  proof (cases "y = Normal")
    case True
    with assms Cons f have p: "promise_set promise (holds_Replies replies) s1 = (x, s')"
      by (simp add: ReadLoop_DeliverBulk_def set_values_def)
    from promise_set_cases [OF p] s1 Cons show ?thesis by auto
  next
    case False
    with assms Cons f have "s' = s1" "x = y"
      by (auto simp: ReadLoop_DeliverBulk_def split: exit.splits)
    with s1 Cons False show ?thesis by simp
  qed
qed

lemma ReadLoop_item_queues:
  assumes "ReadLoop_item env item s = (x, s')"
  shows "FutureResponseActions s' = FutureResponseActions s \<and>
     (x = Normal \<longrightarrow>
        (case Action item of
           Ignore \<Rightarrow> ReplyPromises s' = ReplyPromises s \<and> RepliesPromises s' = RepliesPromises s
         | Deliver \<Rightarrow> Amount item \<le> length (ReplyPromises s) \<and>
                      ReplyPromises s' = drop (Amount item) (ReplyPromises s) \<and>
                      RepliesPromises s' = RepliesPromises s
         | DeliverBulk \<Rightarrow> RepliesPromises s \<noteq> [] \<and> ReplyPromises s' = ReplyPromises s \<and>
                      RepliesPromises s' = tl (RepliesPromises s)))"
proof (cases "Action item")
  case Ignore
  obtain y s1 where f: "ReadLoop_Ignore env (Amount item) s = (y, s1)"
    by (cases "ReadLoop_Ignore env (Amount item) s")
  from ReadLoop_Ignore_frame [OF f] obtain c where "s1 = s\<lparr>ReadCalls := c\<rparr>" by blast
  with assms Ignore f show ?thesis
    by (auto simp: ReadLoop_item_def Logged_add_def split: exit.splits exn.splits)
next
  case Deliver
  with assms ReadLoop_Deliver_queues [of env "Amount item" s x s'] show ?thesis
    by (simp add: ReadLoop_item_def)
next
  case DeliverBulk
  with assms ReadLoop_DeliverBulk_queues [of env "Amount item" s x s'] show ?thesis
    by (simp add: ReadLoop_item_def)
qed

lemma ReadLoop_step_ledger:
  "ReadLoop_step env s = (x, s') \<Longrightarrow> FutureResponseActions s' = tl (FutureResponseActions s)"
proof (cases "FutureResponseActions s")
  case Nil
  assume "ReadLoop_step env s = (x, s')"
  with Nil show ?thesis by (auto simp: ReadLoop_step_def)
next
  case (Cons item ledger)
  assume "ReadLoop_step env s = (x, s')"
  with Cons have "ReadLoop_item env item (s\<lparr>FutureResponseActions := ledger\<rparr>) = (x, s')"
    by (simp add: ReadLoop_step_def)
  from ReadLoop_item_queues [OF this] Cons show ?thesis by simp
qed




lemma ReadLoop_step_coalesced:
  assumes "coalesced (FutureResponseActions s)"
  shows "coalesced (FutureResponseActions (snd (ReadLoop_step env s)))"
  using ReadLoop_step_ledger [OF surjective_pairing, of env s] assms
  by (cases "FutureResponseActions s") (auto dest: coalesced_tl)

lemma ReadLoop_step_Amounts_positive:
  assumes "Amounts_positive (FutureResponseActions s)"
  shows "Amounts_positive (FutureResponseActions (snd (ReadLoop_step env s)))"
  using ReadLoop_step_ledger [OF surjective_pairing, of env s] assms
  by (cases "FutureResponseActions s") (auto simp: Amounts_positive_def)

lemma WriteItem_for_ok:
  "(\<forall>k<length qs. write_fail env (WriteCalls s + k) = None) \<Longrightarrow>
   WriteItem_for env qs i s =
     (Normal, i + length qs, s\<lparr>WriteCalls := WriteCalls s + length qs, Wire := Wire s @ qs\<rparr>)"
proof (induction qs arbitrary: i s)
  case Nil
  then show ?case by simp
next
  case (Cons q qs)
  from Cons.prems have 0: "write_fail env (WriteCalls s) = None" by auto
  let ?s1 = "s\<lparr>WriteCalls := Suc (WriteCalls s), Wire := Wire s @ [q]\<rparr>"
  from 0 have w: "WriteOne env q s = (Normal, ?s1)" by (simp add: WriteOne_def)
  from Cons.prems have "\<forall>k<length qs. write_fail env (WriteCalls ?s1 + k) = None" by auto
  from Cons.IH [OF this, of "Suc i"] w show ?case by simp
qed

lemma WriteItem_for_fails:
  "j < length qs \<Longrightarrow> (\<forall>k<j. write_fail env (WriteCalls s + k) = None) \<Longrightarrow>
   write_fail env (WriteCalls s + j) = Some e \<Longrightarrow>
   WriteItem_for env qs i s =
     (Thrown e, i + j, s\<lparr>WriteCalls := Suc (WriteCalls s + j), Wire := Wire s @ take j qs\<rparr>)"
proof (induction qs arbitrary: i j s)
  case Nil
  then show ?case by simp
next
  case (Cons q qs)
  show ?case
  proof (cases j)
    case 0
    with Cons.prems show ?thesis by (simp add: WriteOne_def)
  next
    case (Suc j')
    with Cons.prems have 0: "write_fail env (WriteCalls s) = None" by auto
    let ?s1 = "s\<lparr>WriteCalls := Suc (WriteCalls s), Wire := Wire s @ [q]\<rparr>"
    from 0 have w: "WriteOne env q s = (Normal, ?s1)" by (simp add: WriteOne_def)
    from Cons.prems Suc have a: "j' < length qs" by simp
    from Cons.prems Suc have b: "\<forall>k<j'. write_fail env (WriteCalls ?s1 + k) = None" by auto
    from Cons.prems Suc have c: "write_fail env (WriteCalls ?s1 + j') = Some e" by simp
    from Cons.IH [OF a b c, of "Suc i"] w Suc show ?thesis by simp
  qed
qed

lemma WriteOne_not_Returned [simp]: "WriteOne env q s \<noteq> (Returned, s')"
  using WriteOne_cases [of env q s Returned s'] by auto

lemma WriteItem_for_not_Returned [simp]: "WriteItem_for env qs i s \<noteq> (Returned, j, s')"
  using WriteItem_for_exit [of env qs i s Returned j s'] by auto

lemma WriteItem_FireOne:
  "WriteItem env (FireOne query) s =
     (case WriteOne env query s of
        (Thrown forced_unwind, s1) \<Rightarrow> (Thrown forced_unwind, s1)
      | (Thrown e, s1) \<Rightarrow> (Normal, Logged_add (fired_and_forgotten query e) s1)
      | (Normal, s1) \<Rightarrow>
          (Normal, s1\<lparr>FutureResponseActions := emplace_or_add 1 Ignore (FutureResponseActions s1),
                       m_QueuedReads := True\<rparr>)
      | (x, s1) \<Rightarrow> (x, s1))"
  by (auto simp: WriteItem_def WriteItem_FireAndForgetQuery_def WriteItem_FireAndForgetQueries_def
      WriteItem_GetResultOfQuery_def WriteItem_GetResultsOfQueries_def FireOne_def and_then_def
      split: prod.splits exit.splits exn.splits)

lemma WriteItem_FireMany:
  "WriteItem env (FireMany item) s =
     (case WriteItem_for env item 0 s of
        (Thrown forced_unwind, i, s1) \<Rightarrow> (Thrown forced_unwind, s1)
      | (Thrown e, i, s1) \<Rightarrow>
          (if i < length item
           then (Normal, Logged_add (fired_and_forgotten (item ! i) e) s1)
           else (Undefined, s1))
      | (Normal, i, s1) \<Rightarrow>
          (Normal, s1\<lparr>FutureResponseActions :=
                         emplace_or_add (length item) Ignore (FutureResponseActions s1),
                       m_QueuedReads := True\<rparr>)
      | (x, i, s1) \<Rightarrow> (x, s1))"
  by (auto simp: WriteItem_def WriteItem_FireAndForgetQuery_def WriteItem_FireAndForgetQueries_def
      WriteItem_GetResultOfQuery_def WriteItem_GetResultsOfQueries_def FireMany_def and_then_def
      split: prod.splits exit.splits exn.splits)

lemma WriteItem_AwaitOne:
  "WriteItem env (AwaitOne query promise) s =
     (case WriteOne env query s of
        (Thrown forced_unwind, s1) \<Rightarrow> (Thrown forced_unwind, s1)
      | (Thrown e, s1) \<Rightarrow> set_exception promise e s1
      | (Normal, s1) \<Rightarrow>
          (Normal, s1\<lparr>ReplyPromises := ReplyPromises s1 @ [promise],
                       FutureResponseActions := emplace_or_add 1 Deliver (FutureResponseActions s1),
                       m_QueuedReads := True\<rparr>)
      | (x, s1) \<Rightarrow> (x, s1))"
  by (auto simp: WriteItem_def WriteItem_FireAndForgetQuery_def WriteItem_FireAndForgetQueries_def
      WriteItem_GetResultOfQuery_def WriteItem_GetResultsOfQueries_def AwaitOne_def and_then_def
      set_exception_def promise_set_def
      split: prod.splits exit.splits exn.splits option.splits)

lemma WriteItem_AwaitMany:
  "WriteItem env (AwaitMany queries promise) s =
     (case WriteItem_for env queries 0 s of
        (Thrown forced_unwind, i, s1) \<Rightarrow> (Thrown forced_unwind, s1)
      | (Thrown e, i, s1) \<Rightarrow> set_exception promise e s1
      | (Normal, i, s1) \<Rightarrow>
          (Normal, s1\<lparr>RepliesPromises := RepliesPromises s1 @ [promise],
                       FutureResponseActions :=
                         FutureResponseActions s1 @
                           [\<lparr>Amount = length queries, Action = DeliverBulk\<rparr>],
                       m_QueuedReads := True\<rparr>)
      | (x, i, s1) \<Rightarrow> (x, s1))"
  by (auto simp: WriteItem_def WriteItem_FireAndForgetQuery_def WriteItem_FireAndForgetQueries_def
      WriteItem_GetResultOfQuery_def WriteItem_GetResultsOfQueries_def AwaitMany_def and_then_def
      set_exception_def promise_set_def
      split: prod.splits exit.splits exn.splits option.splits)

lemma run_invariant:
  assumes step: "\<And>e s s'. P s \<Longrightarrow> happen env e s = (Normal, s') \<Longrightarrow> P s'"
  shows "P s \<Longrightarrow> run env es s = (Normal, s') \<Longrightarrow> P s'"
proof (induction es arbitrary: s)
  case Nil
  then show ?case by simp
next
  case (Cons e es)
  obtain x s1 where h: "happen env e s = (x, s1)" by (cases "happen env e s")
  show ?case
  proof (cases "x = Normal")
    case True
    with h Cons.prems have "run env es s1 = (Normal, s')" by (simp add: and_then_def)
    moreover from step [OF Cons.prems(1)] h True have "P s1" by simp
    ultimately show ?thesis by (rule Cons.IH [rotated])
  next
    case False
    with h Cons.prems show ?thesis by (auto simp: and_then_def split: exit.splits)
  qed
qed

text \<open>The events other than a pass of the writer and a round of the reader leave the ledger
  and the two queues of promises alone.\<close>

lemma Strand_run_queues:
  "FutureResponseActions (Strand_run s) = FutureResponseActions s \<and>
   ReplyPromises (Strand_run s) = ReplyPromises s \<and>
   RepliesPromises (Strand_run s) = RepliesPromises s"
proof (cases "Strand s")
  case Nil
  then show ?thesis by (simp add: Strand_run_def)
next
  case (Cons f rest)
  then show ?thesis by (cases f) (simp_all add: Strand_run_def)
qed

lemma happen_queues:
  assumes "happen env e s = (x, s')" and "e \<noteq> Writer_pass" and "e \<noteq> Reader_round"
  shows "FutureResponseActions s' = FutureResponseActions s \<and>
   ReplyPromises s' = ReplyPromises s \<and> RepliesPromises s' = RepliesPromises s"
  using assms Strand_run_queues [of s]
  by (cases e)
     (auto simp: RedisConnection_FireAndForgetQuery_def RedisConnection_FireAndForgetQueries_def
        RedisConnection_GetResultOfQuery_def RedisConnection_GetResultsOfQueries_def
        RedisConnection_SuppressQueryKind_def RedisConnection_UnsuppressQueryKind_def
        post_def Logged_add_def LogQueries_def Let_def)

lemma WriteLoop_pass_preserves:
  assumes "\<And>s next. P s \<Longrightarrow> P (snd (WriteItem env next s))"
    and "\<And>s w. P (s\<lparr>Writes := w\<rparr>) = P s"
    and "\<And>s b. P (s\<lparr>m_QueuedWrites := b\<rparr>) = P s"
    and "P s"
  shows "P (snd (WriteLoop_pass env s))"
proof (cases "WriteLoop_scan (m_SuppressedQueryKinds s) (Writes s)")
  case None
  with assms(3,4) show ?thesis by (simp add: WriteLoop_pass_def)
next
  case (Some a)
  obtain p "next" w where "a = (p, next, w)" by (cases a)
  with Some assms(1) [of "s\<lparr>Writes := w\<rparr>" "next"] assms(2,4) show ?thesis
    by (simp add: WriteLoop_pass_def)
qed


lemma happen_coalesced:
  assumes "coalesced (FutureResponseActions s)" and "happen env e s = (Normal, s')"
  shows "coalesced (FutureResponseActions s')"
proof (cases "e = Writer_pass \<or> e = Reader_round")
  case False
  with happen_queues [OF assms(2)] assms(1) show ?thesis by simp
next
  case True
  then show ?thesis
  proof
    assume e: "e = Writer_pass"
    have "coalesced (FutureResponseActions (snd (WriteLoop_pass env s)))"
      by (rule WriteLoop_pass_preserves [where P = "\<lambda>s. coalesced (FutureResponseActions s)"])
         (simp_all add: WriteItem_coalesced assms(1))
    with e assms show ?thesis by (auto split: if_splits)
  next
    assume e: "e = Reader_round"
    with assms ReadLoop_step_coalesced [of s env] show ?thesis
      by (auto split: if_splits)
  qed
qed




lemma ledger_append_DeliverBulk:
  "ledger_append DeliverBulk k ledger = ledger @ [\<lparr>Amount = k, Action = DeliverBulk\<rparr>]"
  by (simp add: ledger_append_def)

lemma coalesced_ledger_append: "coalesced ledger \<Longrightarrow> coalesced (ledger_append action k ledger)"
proof (cases "action = DeliverBulk")
  case True
  assume "coalesced ledger"
  with True show ?thesis by (simp add: ledger_append_DeliverBulk coalesced_DeliverBulk)
next
  case False
  assume "coalesced ledger"
  with False show ?thesis
    using emplace_or_add_ledger_append [of action k ledger, symmetric]
    by (simp add: coalesced_emplace_or_add)
qed

lemma WriteItem_FireOne_ok:
  "write_fail env (WriteCalls s) = None \<Longrightarrow>
   WriteItem env (FireOne query) s =
     (Normal, s\<lparr>WriteCalls := Suc (WriteCalls s), Wire := Wire s @ [query],
                 FutureResponseActions := emplace_or_add 1 Ignore (FutureResponseActions s),
                 m_QueuedReads := True\<rparr>)"
  by (simp add: WriteItem_FireOne WriteOne_def)

lemma WriteItem_AwaitOne_ok:
  "write_fail env (WriteCalls s) = None \<Longrightarrow>
   WriteItem env (AwaitOne query promise) s =
     (Normal, s\<lparr>WriteCalls := Suc (WriteCalls s), Wire := Wire s @ [query],
                 ReplyPromises := ReplyPromises s @ [promise],
                 FutureResponseActions := emplace_or_add 1 Deliver (FutureResponseActions s),
                 m_QueuedReads := True\<rparr>)"
  by (simp add: WriteItem_AwaitOne WriteOne_def)

lemma WriteItem_FireMany_ok:
  "\<forall>k<length queries. write_fail env (WriteCalls s + k) = None \<Longrightarrow>
   WriteItem env (FireMany queries) s =
     (Normal, s\<lparr>WriteCalls := WriteCalls s + length queries, Wire := Wire s @ queries,
                 FutureResponseActions :=
                   emplace_or_add (length queries) Ignore (FutureResponseActions s),
                 m_QueuedReads := True\<rparr>)"
  by (simp add: WriteItem_FireMany WriteItem_for_ok)

lemma WriteItem_AwaitMany_ok:
  "\<forall>k<length queries. write_fail env (WriteCalls s + k) = None \<Longrightarrow>
   WriteItem env (AwaitMany queries promise) s =
     (Normal, s\<lparr>WriteCalls := WriteCalls s + length queries, Wire := Wire s @ queries,
                 RepliesPromises := RepliesPromises s @ [promise],
                 FutureResponseActions :=
                   FutureResponseActions s @
                     [\<lparr>Amount = length queries, Action = DeliverBulk\<rparr>],
                 m_QueuedReads := True\<rparr>)"
  by (simp add: WriteItem_AwaitMany WriteItem_for_ok)

text \<open>
  Claim C4. A successful send appends to the ledger as the spec words it: Ignore(k) is
  added to a tail that is Ignore and is a new record otherwise, Deliver(k) likewise with
  Deliver, DeliverBulk(k) is always a new record. An append and a pop of the front both
  keep the ledger free of two neighbouring Ignore records and of two neighbouring
  Deliver records; so do WriteItem and a round of the reader, however they end, and so
  is the ledger of every state that a run of events reaches from the constructor's.
\<close>

theorem ledger_append_coalesces:
  "(write_fail env (WriteCalls s) = None \<longrightarrow>
      FutureResponseActions (snd (WriteItem env (FireOne query) s)) =
        ledger_append Ignore 1 (FutureResponseActions s) \<and>
      FutureResponseActions (snd (WriteItem env (AwaitOne query promise) s)) =
        ledger_append Deliver 1 (FutureResponseActions s)) \<and>
   ((\<forall>k<length queries. write_fail env (WriteCalls s + k) = None) \<longrightarrow>
      FutureResponseActions (snd (WriteItem env (FireMany queries) s)) =
        ledger_append Ignore (length queries) (FutureResponseActions s) \<and>
      FutureResponseActions (snd (WriteItem env (AwaitMany queries promise) s)) =
        ledger_append DeliverBulk (length queries) (FutureResponseActions s)) \<and>
   ledger_append DeliverBulk k ledger = ledger @ [\<lparr>Amount = k, Action = DeliverBulk\<rparr>] \<and>
   (coalesced ledger \<longrightarrow> coalesced (ledger_append action k ledger) \<and> coalesced (tl ledger)) \<and>
   (coalesced (FutureResponseActions s) \<longrightarrow>
      coalesced (FutureResponseActions (snd (WriteItem env next s))) \<and>
      coalesced (FutureResponseActions (snd (ReadLoop_step env s)))) \<and>
   (run env events (RedisConnection_new host port path) = (Normal, s') \<longrightarrow>
      coalesced (FutureResponseActions s'))"
proof (intro conjI impI)
  assume ok: "write_fail env (WriteCalls s) = None"
  show "FutureResponseActions (snd (WriteItem env (FireOne query) s)) =
        ledger_append Ignore 1 (FutureResponseActions s)"
    by (simp add: WriteItem_FireOne_ok [OF ok] emplace_or_add_ledger_append)
  show "FutureResponseActions (snd (WriteItem env (AwaitOne query promise) s)) =
        ledger_append Deliver 1 (FutureResponseActions s)"
    by (simp add: WriteItem_AwaitOne_ok [OF ok] emplace_or_add_ledger_append)
next
  assume ok: "\<forall>k<length queries. write_fail env (WriteCalls s + k) = None"
  show "FutureResponseActions (snd (WriteItem env (FireMany queries) s)) =
        ledger_append Ignore (length queries) (FutureResponseActions s)"
    by (simp add: WriteItem_FireMany_ok [OF ok] emplace_or_add_ledger_append)
  show "FutureResponseActions (snd (WriteItem env (AwaitMany queries promise) s)) =
        ledger_append DeliverBulk (length queries) (FutureResponseActions s)"
    by (simp add: WriteItem_AwaitMany_ok [OF ok] ledger_append_DeliverBulk)
next
  show "ledger_append DeliverBulk k ledger = ledger @ [\<lparr>Amount = k, Action = DeliverBulk\<rparr>]"
    by (rule ledger_append_DeliverBulk)
next
  assume "coalesced ledger"
  then show "coalesced (ledger_append action k ledger)" by (rule coalesced_ledger_append)
next
  assume "coalesced ledger"
  then show "coalesced (tl ledger)" by (cases ledger) (auto dest: coalesced_tl)
next
  assume "coalesced (FutureResponseActions s)"
  then show "coalesced (FutureResponseActions (snd (WriteItem env next s)))"
    by (rule WriteItem_coalesced)
next
  assume "coalesced (FutureResponseActions s)"
  then show "coalesced (FutureResponseActions (snd (ReadLoop_step env s)))"
    by (rule ReadLoop_step_coalesced)
next
  assume r: "run env events (RedisConnection_new host port path) = (Normal, s')"
  have "coalesced (FutureResponseActions (RedisConnection_new host port path))"
    by (simp add: RedisConnection_new_def)
  then show "coalesced (FutureResponseActions s')"
    using r by (rule run_invariant [where P = "\<lambda>s. coalesced (FutureResponseActions s)", rotated])
      (rule happen_coalesced)
qed

theorem ledger_append_coalesces_witness:
  "write_fail example_env (WriteCalls example_state) = None \<and>
   FutureResponseActions (snd (WriteItem example_env (FireOne [''PING'']) example_state)) =
     ledger_append Ignore 1 (FutureResponseActions example_state) \<and>
   FutureResponseActions (snd (WriteItem example_env (AwaitOne [''PING''] 1) example_state)) =
     ledger_append Deliver 1 (FutureResponseActions example_state) \<and>
   write_fail example_env (WriteCalls example_state + 0) = None \<and>
   write_fail example_env (WriteCalls example_state + 1) = None \<and>
   FutureResponseActions
     (snd (WriteItem example_env (FireMany [[''SET'', ''k'', ''v''], [''GET'', ''k'']]) example_state)) =
     ledger_append Ignore 2 (FutureResponseActions example_state) \<and>
   FutureResponseActions
     (snd (WriteItem example_env (AwaitMany [[''SET'', ''k'', ''v''], [''GET'', ''k'']] 1) example_state)) =
     ledger_append DeliverBulk 2 (FutureResponseActions example_state) \<and>
   coalesced (FutureResponseActions example_state) \<and>
   coalesced (ledger_append Ignore 3 (FutureResponseActions example_state)) \<and>
   coalesced (tl (FutureResponseActions example_state)) \<and>
   coalesced (FutureResponseActions (snd (WriteItem example_env (FireOne [''PING'']) example_state))) \<and>
   coalesced (FutureResponseActions (snd (ReadLoop_step example_env example_state))) \<and>
   fst (run example_env [Call_FireAndForgetQuery [''PING''] 0, Run_posted, Writer_pass]
          (RedisConnection_new ''localhost'' 6379 [])) = Normal \<and>
   coalesced (FutureResponseActions
     (snd (run example_env [Call_FireAndForgetQuery [''PING''] 0, Run_posted, Writer_pass]
          (RedisConnection_new ''localhost'' 6379 []))))"
proof -
  let ?qs = "[[''SET'', ''k'', ''v''], [''GET'', ''k'']]"
  let ?evs = "[Call_FireAndForgetQuery [''PING''] 0, Run_posted, Writer_pass]"
  let ?u = "run example_env ?evs (RedisConnection_new ''localhost'' 6379 [])"
  have a: "write_fail example_env (WriteCalls example_state) = None"
    by (simp add: example_env_def io_ok_def)
  have b: "\<forall>k<length ?qs. write_fail example_env (WriteCalls example_state + k) = None"
    by (simp add: example_env_def io_ok_def)
  have c: "coalesced (FutureResponseActions example_state)" by code_simp
  have d0: "fst ?u = Normal" by code_simp
  then have d: "?u = (Normal, snd ?u)" by (simp add: prod_eq_iff)
  have l: "length ?qs = 2" by simp
  have b0: "write_fail example_env (WriteCalls example_state + 0) = None"
    and b1: "write_fail example_env (WriteCalls example_state + 1) = None"
    by (simp_all add: example_env_def io_ok_def)
  from ledger_append_coalesces
         [of example_env example_state "[''PING'']" 1 ?qs 3 "FutureResponseActions example_state"
             Ignore "FireOne [''PING'']" ?evs "''localhost''" 6379 "[]" "snd ?u"]
       a b b0 b1 c d d0
  show ?thesis unfolding l by blast
qed

text \<open>
  Claim C6. When the send of a result-bearing item raises an exception other than the
  unwind exception, WriteItem returns, the caller's sink (not yet satisfied) holds that
  exception, the ledger and both queues of promises are what they were, and the reader
  is not signalled. For a batch this is so whichever of its queries fails to be sent.
\<close>

theorem send_failure_fails_the_sink:
  "(write_fail env (WriteCalls s) = Some e \<and> e \<noteq> forced_unwind \<and> Promises s promise = None \<longrightarrow>
      fst (WriteItem env (AwaitOne query promise) s) = Normal \<and>
      future_get (snd (WriteItem env (AwaitOne query promise) s)) promise =
        Some (holds_exception e) \<and>
      FutureResponseActions (snd (WriteItem env (AwaitOne query promise) s)) =
        FutureResponseActions s \<and>
      ReplyPromises (snd (WriteItem env (AwaitOne query promise) s)) = ReplyPromises s \<and>
      RepliesPromises (snd (WriteItem env (AwaitOne query promise) s)) = RepliesPromises s \<and>
      m_QueuedReads (snd (WriteItem env (AwaitOne query promise) s)) = m_QueuedReads s) \<and>
   (j < length queries \<and> (\<forall>k<j. write_fail env (WriteCalls s + k) = None) \<and>
    write_fail env (WriteCalls s + j) = Some e \<and> e \<noteq> forced_unwind \<and>
    Promises s promise = None \<longrightarrow>
      fst (WriteItem env (AwaitMany queries promise) s) = Normal \<and>
      future_get (snd (WriteItem env (AwaitMany queries promise) s)) promise =
        Some (holds_exception e) \<and>
      FutureResponseActions (snd (WriteItem env (AwaitMany queries promise) s)) =
        FutureResponseActions s \<and>
      ReplyPromises (snd (WriteItem env (AwaitMany queries promise) s)) = ReplyPromises s \<and>
      RepliesPromises (snd (WriteItem env (AwaitMany queries promise) s)) = RepliesPromises s \<and>
      m_QueuedReads (snd (WriteItem env (AwaitMany queries promise) s)) = m_QueuedReads s)"
proof (intro conjI impI)
  assume h: "write_fail env (WriteCalls s) = Some e \<and> e \<noteq> forced_unwind \<and> Promises s promise = None"
  then have "WriteItem env (AwaitOne query promise) s =
      (Normal, s\<lparr>WriteCalls := Suc (WriteCalls s),
                  Promises := (Promises s)(promise \<mapsto> holds_exception e)\<rparr>)"
    by (cases e) (simp_all add: WriteItem_AwaitOne WriteOne_def set_exception_def promise_set_def)
  then show "fst (WriteItem env (AwaitOne query promise) s) = Normal"
    and "future_get (snd (WriteItem env (AwaitOne query promise) s)) promise =
        Some (holds_exception e)"
    and "FutureResponseActions (snd (WriteItem env (AwaitOne query promise) s)) =
        FutureResponseActions s"
    and "ReplyPromises (snd (WriteItem env (AwaitOne query promise) s)) = ReplyPromises s"
    and "RepliesPromises (snd (WriteItem env (AwaitOne query promise) s)) = RepliesPromises s"
    and "m_QueuedReads (snd (WriteItem env (AwaitOne query promise) s)) = m_QueuedReads s"
    by (simp_all add: future_get_def)
next
  assume h: "j < length queries \<and> (\<forall>k<j. write_fail env (WriteCalls s + k) = None) \<and>
    write_fail env (WriteCalls s + j) = Some e \<and> e \<noteq> forced_unwind \<and>
    Promises s promise = None"
  then have "WriteItem_for env queries 0 s =
     (Thrown e, 0 + j, s\<lparr>WriteCalls := Suc (WriteCalls s + j), Wire := Wire s @ take j queries\<rparr>)"
    by (intro WriteItem_for_fails) auto
  with h have "WriteItem env (AwaitMany queries promise) s =
      (Normal, s\<lparr>WriteCalls := Suc (WriteCalls s + j), Wire := Wire s @ take j queries,
                  Promises := (Promises s)(promise \<mapsto> holds_exception e)\<rparr>)"
    by (cases e) (simp_all add: WriteItem_AwaitMany set_exception_def promise_set_def)
  then show "fst (WriteItem env (AwaitMany queries promise) s) = Normal"
    and "future_get (snd (WriteItem env (AwaitMany queries promise) s)) promise =
        Some (holds_exception e)"
    and "FutureResponseActions (snd (WriteItem env (AwaitMany queries promise) s)) =
        FutureResponseActions s"
    and "ReplyPromises (snd (WriteItem env (AwaitMany queries promise) s)) = ReplyPromises s"
    and "RepliesPromises (snd (WriteItem env (AwaitMany queries promise) s)) = RepliesPromises s"
    and "m_QueuedReads (snd (WriteItem env (AwaitMany queries promise) s)) = m_QueuedReads s"
    by (simp_all add: future_get_def)
qed

theorem send_failure_fails_the_sink_witness:
  "write_fail (failing_send 3 (std_exception ''Broken pipe'')) (WriteCalls example_state + 1)
     = Some (std_exception ''Broken pipe'') \<and>
   Promises example_state 5 = None \<and>
   fst (WriteItem (failing_send 2 (std_exception ''Broken pipe'')) (AwaitOne [''PING''] 5) example_state)
     = Normal \<and>
   future_get (snd (WriteItem (failing_send 2 (std_exception ''Broken pipe''))
                      (AwaitOne [''PING''] 5) example_state)) 5
     = Some (holds_exception (std_exception ''Broken pipe'')) \<and>
   FutureResponseActions (snd (WriteItem (failing_send 2 (std_exception ''Broken pipe''))
                      (AwaitOne [''PING''] 5) example_state))
     = FutureResponseActions example_state \<and>
   fst (WriteItem (failing_send 3 (std_exception ''Broken pipe''))
          (AwaitMany [[''SET'', ''k'', ''v''], [''GET'', ''k'']] 5) example_state) = Normal \<and>
   future_get (snd (WriteItem (failing_send 3 (std_exception ''Broken pipe''))
          (AwaitMany [[''SET'', ''k'', ''v''], [''GET'', ''k'']] 5) example_state)) 5
     = Some (holds_exception (std_exception ''Broken pipe'')) \<and>
   FutureResponseActions (snd (WriteItem (failing_send 3 (std_exception ''Broken pipe''))
          (AwaitMany [[''SET'', ''k'', ''v''], [''GET'', ''k'']] 5) example_state))
     = FutureResponseActions example_state \<and>
   RepliesPromises (snd (WriteItem (failing_send 3 (std_exception ''Broken pipe''))
          (AwaitMany [[''SET'', ''k'', ''v''], [''GET'', ''k'']] 5) example_state))
     = RepliesPromises example_state"
proof -
  let ?e = "std_exception ''Broken pipe''"
  let ?qs = "[[''SET'', ''k'', ''v''], [''GET'', ''k'']]"
  have w: "WriteCalls example_state = 2" by code_simp
  have p: "Promises example_state 5 = None"
    by (simp add: example_state_def example_env_def io_ok_def RedisConnection_new_def
        RedisConnection_GetResultOfQuery_def RedisConnection_FireAndForgetQuery_def post_def
        Logged_add_def Strand_run_def and_then_def WriteLoop_pass_def WriteItem_AwaitOne
        WriteItem_FireOne WriteOne_def Let_def)
  have a: "write_fail (failing_send 2 ?e) (WriteCalls example_state) = Some ?e"
    by (simp add: w failing_send_def)
  have b: "\<forall>k<1. write_fail (failing_send 3 ?e) (WriteCalls example_state + k) = None"
    by (simp add: w failing_send_def)
  have c: "write_fail (failing_send 3 ?e) (WriteCalls example_state + 1) = Some ?e"
    by (simp add: w failing_send_def)
  have l: "(1::nat) < length ?qs" by simp
  from send_failure_fails_the_sink
         [of "failing_send 2 ?e" example_state ?e 5 "[''PING'']" 1 ?qs]
       send_failure_fails_the_sink
         [of "failing_send 3 ?e" example_state ?e 5 "[''PING'']" 1 ?qs]
       a b c p l
  show ?thesis by blast
qed

lemma WriteItem_fields:
  assumes "WriteItem env next s = (x, s')"
  shows "Writes s' = Writes s \<and> m_SuppressedQueryKinds s' = m_SuppressedQueryKinds s \<and>
         Strand s' = Strand s \<and> m_QueuedWrites s' = m_QueuedWrites s \<and> ReadCalls s' = ReadCalls s"
proof -
  define P :: "RedisConnection \<Rightarrow> bool" where "P = (\<lambda>t. Writes t = Writes s \<and>
      m_SuppressedQueryKinds t = m_SuppressedQueryKinds s \<and> Strand t = Strand s \<and>
      m_QueuedWrites t = m_QueuedWrites s \<and> ReadCalls t = ReadCalls s)"
  have one: "P t'" if "WriteOne env q t = (y, t')" "P t" for q t y t'
  proof -
    from WriteOne_cases [OF that(1)]
    have "t' = t\<lparr>WriteCalls := Suc (WriteCalls t), Wire := Wire t @ [q]\<rparr> \<or>
          t' = t\<lparr>WriteCalls := Suc (WriteCalls t)\<rparr>" by blast
    then show ?thesis
    proof
      assume "t' = t\<lparr>WriteCalls := Suc (WriteCalls t), Wire := Wire t @ [q]\<rparr>"
      with that(2) show ?thesis by (simp add: P_def)
    next
      assume "t' = t\<lparr>WriteCalls := Suc (WriteCalls t)\<rparr>"
      with that(2) show ?thesis by (simp add: P_def)
    qed
  qed
  have many: "P t'" if "WriteItem_for env qs i t = (y, j, t')" "P t" for qs i t y j t'
  proof -
    from WriteItem_for_frame [OF that(1)] obtain c w
      where "t' = t\<lparr>WriteCalls := c, Wire := w\<rparr>" by blast
    with that(2) show ?thesis by (simp add: P_def)
  qed
  have pset: "P (snd (set_exception p e t))" if "P t" for p e t
    using that by (simp add: set_exception_def promise_set_def P_def split: option.splits)
  have upd [simp]: "P (t\<lparr>FutureResponseActions := l\<rparr>) = P t"
            "P (t\<lparr>m_QueuedReads := b\<rparr>) = P t"
            "P (t\<lparr>ReplyPromises := r\<rparr>) = P t"
            "P (t\<lparr>RepliesPromises := r\<rparr>) = P t"
            "P (Logged_add le t) = P t" for t l b r le
    by (simp_all add: P_def Logged_add_def)
  have "P (snd (WriteItem env next s))"
  proof (rule WriteItem_preserves [where P = P])
    show "P s" by (simp add: P_def)
  next
    fix t :: RedisConnection assume t: "P t"
    show "P (snd (WriteItem_FireAndForgetQuery env next t))"
    proof (cases "FireAndForgetQuery next")
      case None
      with t show ?thesis by (simp add: WriteItem_FireAndForgetQuery_def)
    next
      case (Some item)
      obtain y t1 where w: "WriteOne env item t = (y, t1)" by (cases "WriteOne env item t")
      from one [OF w t] have "P t1" .
      then show ?thesis
        by (simp add: WriteItem_FireAndForgetQuery_def Some w split: exit.split exn.split)
    qed
  next
    fix t :: RedisConnection assume t: "P t"
    show "P (snd (WriteItem_FireAndForgetQueries env next t))"
    proof (cases "FireAndForgetQueries next")
      case None
      with t show ?thesis by (simp add: WriteItem_FireAndForgetQueries_def)
    next
      case (Some item)
      obtain y i t1 where w: "WriteItem_for env item 0 t = (y, i, t1)"
        by (cases "WriteItem_for env item 0 t")
      from many [OF w t] have "P t1" .
      then show ?thesis
        by (simp add: WriteItem_FireAndForgetQueries_def Some w split: exit.split exn.split)
    qed
  next
    fix t :: RedisConnection assume t: "P t"
    show "P (snd (WriteItem_GetResultOfQuery env next t))"
    proof (cases "GetResultOfQuery next")
      case None
      with t show ?thesis by (simp add: WriteItem_GetResultOfQuery_def)
    next
      case (Some a)
      obtain query promise where a: "a = (query, promise)" by (cases a)
      obtain y t1 where w: "WriteOne env query t = (y, t1)" by (cases "WriteOne env query t")
      from one [OF w t] have t1: "P t1" .
      have "P (snd (case set_exception promise e t1 of (Normal, s2) \<Rightarrow> (Returned, s2)
                    | (x, s2) \<Rightarrow> (x, s2)))" for e
        using pset [OF t1, of promise e]
        by (cases "set_exception promise e t1") (auto split: exit.splits)
      with t1 show ?thesis
        by (simp add: WriteItem_GetResultOfQuery_def Some a w split: exit.split exn.split)
    qed
  next
    fix t :: RedisConnection assume t: "P t"
    show "P (snd (WriteItem_GetResultsOfQueries env next t))"
    proof (cases "GetResultsOfQueries next")
      case None
      with t show ?thesis by (simp add: WriteItem_GetResultsOfQueries_def)
    next
      case (Some a)
      obtain queries promise where a: "a = (queries, promise)" by (cases a)
      obtain y i t1 where w: "WriteItem_for env queries 0 t = (y, i, t1)"
        by (cases "WriteItem_for env queries 0 t")
      from many [OF w t] have t1: "P t1" .
      have "P (snd (case set_exception promise e t1 of (Normal, s2) \<Rightarrow> (Returned, s2)
                    | (x, s2) \<Rightarrow> (x, s2)))" for e
        using pset [OF t1, of promise e]
        by (cases "set_exception promise e t1") (auto split: exit.splits)
      with t1 show ?thesis
        by (simp add: WriteItem_GetResultsOfQueries_def Some a w split: exit.split exn.split)
    qed
  qed
  with assms show ?thesis by (simp add: P_def)
qed

lemma ReadLoop_item_fields:
  assumes "ReadLoop_item env item s = (x, s')"
  shows "Writes s' = Writes s \<and> m_SuppressedQueryKinds s' = m_SuppressedQueryKinds s \<and>
         Strand s' = Strand s \<and> m_QueuedWrites s' = m_QueuedWrites s \<and>
         WriteCalls s' = WriteCalls s \<and> Wire s' = Wire s \<and> m_QueuedReads s' = m_QueuedReads s"
proof (cases "Action item")
  case Ignore
  obtain y s1 where f: "ReadLoop_Ignore env (Amount item) s = (y, s1)"
    by (cases "ReadLoop_Ignore env (Amount item) s")
  from ReadLoop_Ignore_frame [OF f] obtain c where "s1 = s\<lparr>ReadCalls := c\<rparr>" by blast
  with assms Ignore f show ?thesis
    by (auto simp: ReadLoop_item_def Logged_add_def split: exit.splits exn.splits)
next
  case Deliver
  with assms have d: "ReadLoop_Deliver env (Amount item) s = (x, s')"
    by (simp add: ReadLoop_item_def)
  have "ReadLoop_Deliver env n t = (y, t') \<Longrightarrow>
          \<exists>r c p. t' = t\<lparr>ReplyPromises := r, ReadCalls := c, Promises := p\<rparr>" for n t y t'
  proof (induction n arbitrary: t)
    case 0
    then have "t' = t\<lparr>ReplyPromises := ReplyPromises t, ReadCalls := ReadCalls t,
                       Promises := Promises t\<rparr>" by simp
    then show ?case by blast
  next
    case (Suc n)
    show ?case
    proof (cases "ReplyPromises t")
      case Nil
      with Suc.prems
      have "t' = t\<lparr>ReplyPromises := ReplyPromises t, ReadCalls := ReadCalls t,
                       Promises := Promises t\<rparr>" by simp
      then show ?thesis by blast
    next
      case (Cons promise promises)
      let ?t0 = "t\<lparr>ReplyPromises := promises\<rparr>"
      obtain r t1 where r: "ReadOne env ?t0 = (r, t1)" by (cases "ReadOne env ?t0")
      have t1: "\<exists>c. t1 = ?t0\<lparr>ReadCalls := c\<rparr>"
      proof -
        from ReadOne_cases [OF r]
        have "t1 = ?t0\<lparr>ReadCalls := Suc (ReadCalls ?t0)\<rparr> \<or> t1 = ?t0\<lparr>ReadCalls := ReadCalls ?t0\<rparr>"
          by auto
        then show ?thesis by blast
      qed
      have step: "promise_set promise v t1 = (z, t2) \<Longrightarrow>
            (z = Normal \<longrightarrow> ReadLoop_Deliver env n t2 = (y, t')) \<and> (z \<noteq> Normal \<longrightarrow> t' = t2)
            \<Longrightarrow> ?thesis" for v z t2
      proof -
        assume p: "promise_set promise v t1 = (z, t2)"
          and k: "(z = Normal \<longrightarrow> ReadLoop_Deliver env n t2 = (y, t')) \<and> (z \<noteq> Normal \<longrightarrow> t' = t2)"
        from t1 obtain c0 where c0: "t1 = ?t0\<lparr>ReadCalls := c0\<rparr>" by blast
        from promise_set_cases [OF p]
        have "t2 = t\<lparr>ReplyPromises := promises, ReadCalls := c0,
                       Promises := (Promises t1)(promise \<mapsto> v)\<rparr> \<or>
              t2 = t\<lparr>ReplyPromises := promises, ReadCalls := c0, Promises := Promises t\<rparr>"
          using c0 by auto
        then obtain c pr
          where t2: "t2 = t\<lparr>ReplyPromises := promises, ReadCalls := c, Promises := pr\<rparr>"
          by blast
        show ?thesis
        proof (cases "z = Normal")
          case True
          with k have "ReadLoop_Deliver env n t2 = (y, t')" by simp
          from Suc.IH [OF this] t2 show ?thesis by auto
        next
          case False
          with k t2 show ?thesis by blast
        qed
      qed
      from ReadOne_cases [OF r] show ?thesis
      proof (elim disjE exE conjE)
        fix e assume e: "r = Inl (Thrown e)"
        show ?thesis
        proof (cases "e = forced_unwind")
          case True
          with Suc.prems Cons r e have "t' = t1" by auto
          with t1 have "\<exists>c. t' = t\<lparr>ReplyPromises := promises, ReadCalls := c, Promises := Promises t\<rparr>"
            by auto
          then show ?thesis by blast
        next
          case False
          obtain z t2 where p: "promise_set promise (holds_exception e) t1 = (z, t2)"
            by (cases "promise_set promise (holds_exception e) t1")
          with Suc.prems Cons r e False
          have "(z = Normal \<longrightarrow> ReadLoop_Deliver env n t2 = (y, t')) \<and> (z \<noteq> Normal \<longrightarrow> t' = t2)"
            by (cases e) (auto simp: set_exception_def split: exit.splits)
          with p show ?thesis by (rule step)
        qed
      next
        assume a: "r = Inr (reply_to env (Wire ?t0) (ReadCalls ?t0))"
        obtain z t2 where p: "promise_set promise
              (holds_Reply (reply_to env (Wire ?t0) (ReadCalls ?t0))) t1 = (z, t2)"
          by (cases "promise_set promise (holds_Reply (reply_to env (Wire ?t0) (ReadCalls ?t0))) t1")
        with Suc.prems Cons r a
        have "(z = Normal \<longrightarrow> ReadLoop_Deliver env n t2 = (y, t')) \<and> (z \<noteq> Normal \<longrightarrow> t' = t2)"
          by (auto simp: set_value_def split: exit.splits)
        with p show ?thesis by (rule step)
      next
        assume "r = Inl Blocked"
        with Suc.prems Cons r have "t' = t1" by auto
        with t1 have "\<exists>c. t' = t\<lparr>ReplyPromises := promises, ReadCalls := c, Promises := Promises t\<rparr>"
          by auto
        then show ?thesis by blast
      qed
    qed
  qed
  from this [OF d] show ?thesis by auto
next
  case DeliverBulk
  with assms have d: "ReadLoop_DeliverBulk env (Amount item) s = (x, s')"
    by (simp add: ReadLoop_item_def)
  show ?thesis
  proof (cases "RepliesPromises s")
    case Nil
    with d show ?thesis by (simp add: ReadLoop_DeliverBulk_def)
  next
    case (Cons promise promises)
    let ?s0 = "s\<lparr>RepliesPromises := promises\<rparr>"
    obtain y replies s1
      where f: "ReadLoop_DeliverBulk_for env promise (Amount item) [] ?s0 = (y, replies, s1)"
      by (cases "ReadLoop_DeliverBulk_for env promise (Amount item) [] ?s0")
    from ReadLoop_DeliverBulk_for_frame [OF f] obtain c pr
      where s1: "s1 = ?s0\<lparr>ReadCalls := c, Promises := pr\<rparr>" by blast
    show ?thesis
    proof (cases "y = Normal")
      case True
      with d Cons f have p: "promise_set promise (holds_Replies replies) s1 = (x, s')"
        by (simp add: ReadLoop_DeliverBulk_def set_values_def)
      from promise_set_cases [OF p] s1 show ?thesis by auto
    next
      case False
      with d Cons f have "s' = s1"
        by (auto simp: ReadLoop_DeliverBulk_def split: exit.splits)
      with s1 show ?thesis by simp
    qed
  qed
qed

text \<open>
  Claim C5, at a failing input. A batch of one query is awaited, a query is fired and
  forgotten behind it, both are sent; the receive of the first reply raises an exception
  derived from std::exception. The round of the reader that handles the DeliverBulk
  record stores the failure in the list sink, goes on with its inner loop, and then
  calls set_value on the satisfied promise: std::future_error leaves ReadLoop, and the
  Ignore record behind stays on the ledger.
\<close>

theorem DeliverBulk_failure_leaves_ReadLoop:
  "fst (run (failing_receive 0 (std_exception ''Connection reset by peer''))
          [Call_GetResultsOfQueries [[''GET'', ''k'']] 0, Call_FireAndForgetQuery [''PING''] 0,
           Run_posted, Run_posted, Writer_pass, Writer_pass, Reader_round]
          (RedisConnection_new ''localhost'' 6379 [])) = Thrown future_error \<and>
   future_get
     (snd (run (failing_receive 0 (std_exception ''Connection reset by peer''))
          [Call_GetResultsOfQueries [[''GET'', ''k'']] 0, Call_FireAndForgetQuery [''PING''] 0,
           Run_posted, Run_posted, Writer_pass, Writer_pass, Reader_round]
          (RedisConnection_new ''localhost'' 6379 []))) 0
     = Some (holds_exception (std_exception ''Connection reset by peer'')) \<and>
   FutureResponseActions
     (snd (run (failing_receive 0 (std_exception ''Connection reset by peer''))
          [Call_GetResultsOfQueries [[''GET'', ''k'']] 0, Call_FireAndForgetQuery [''PING''] 0,
           Run_posted, Run_posted, Writer_pass, Writer_pass, Reader_round]
          (RedisConnection_new ''localhost'' 6379 [])))
     = [\<lparr>Amount = 1, Action = Ignore\<rparr>]"
  by code_simp

text \<open>
  Claim C8 fails for an empty list of queries: GetResultsOfQueries creates a DeliverBulk
  record whose amount is 0, and so does FireAndForgetQueries with an Ignore record when
  the ledger does not end in one.
\<close>

theorem empty_list_Amount_0:
  "FutureResponseActions
     (snd (run example_env [Call_GetResultsOfQueries [] 0, Run_posted, Writer_pass]
            (RedisConnection_new ''localhost'' 6379 [])))
     = [\<lparr>Amount = 0, Action = DeliverBulk\<rparr>] \<and>
   FutureResponseActions
     (snd (run example_env [Call_FireAndForgetQueries [] 0, Run_posted, Writer_pass]
            (RedisConnection_new ''localhost'' 6379 [])))
     = [\<lparr>Amount = 0, Action = Ignore\<rparr>] \<and>
   \<not> Amounts_positive
       (FutureResponseActions
         (snd (run example_env [Call_GetResultsOfQueries [] 0, Run_posted, Writer_pass]
                (RedisConnection_new ''localhost'' 6379 [])))) \<and>
   \<not> Amounts_positive
       (FutureResponseActions
         (snd (run example_env [Call_FireAndForgetQueries [] 0, Run_posted, Writer_pass]
                (RedisConnection_new ''localhost'' 6379 []))))"
  by code_simp

lemma run_invariant_on:
  assumes step: "\<And>e s s'. e \<in> set es \<Longrightarrow> P s \<Longrightarrow> happen env e s = (Normal, s') \<Longrightarrow> P s'"
  shows "P s \<Longrightarrow> run env es s = (Normal, s') \<Longrightarrow> P s'"
  using step
proof (induction es arbitrary: s)
  case Nil
  then show ?case by simp
next
  case (Cons e es)
  obtain x s1 where h: "happen env e s = (x, s1)" by (cases "happen env e s")
  show ?case
  proof (cases "x = Normal")
    case True
    with h Cons.prems have r: "run env es s1 = (Normal, s')" by (simp add: and_then_def)
    from Cons.prems(3) [of e s s1] Cons.prems(1) h True have p: "P s1" by simp
    show ?thesis
      by (rule Cons.IH [OF p r]) (rule Cons.prems(3), auto)
  next
    case False
    with h Cons.prems show ?thesis by (auto simp: and_then_def split: exit.splits)
  qed
qed

lemma Writes_emplace_all:
  "list_all (\<lambda>(k, queue). list_all Q queue) writes \<Longrightarrow> Q item \<Longrightarrow>
   list_all (\<lambda>(k, queue). list_all Q queue) (Writes_emplace priority item writes)"
  by (induction writes) auto

lemma WriteLoop_scan_all:
  "WriteLoop_scan suppressed writes = Some (p, item, writes') \<Longrightarrow>
   list_all (\<lambda>(k, queue). list_all Q queue) writes \<Longrightarrow>
   Q item \<and> list_all (\<lambda>(k, queue). list_all Q queue) writes'"
proof (induction writes arbitrary: writes')
  case Nil
  then show ?case by simp
next
  case (Cons a writes)
  obtain k queue where a: "a = (k, queue)" by (cases a)
  show ?case
  proof (cases "queue = [] \<or> k \<in> suppressed")
    case True
    with Cons.prems a obtain rest' where
      r: "WriteLoop_scan suppressed writes = Some (p, item, rest')" and w: "writes' = (k, queue) # rest'"
      by (cases queue) (auto split: if_splits)
    from Cons.IH [OF r] Cons.prems(2) a w show ?thesis by simp
  next
    case False
    with Cons.prems a show ?thesis by (cases queue) auto
  qed
qed

lemma ReadLoop_step_fields:
  assumes "ReadLoop_step env s = (x, s')"
  shows "Writes s' = Writes s \<and> m_SuppressedQueryKinds s' = m_SuppressedQueryKinds s \<and>
         Strand s' = Strand s \<and> m_QueuedWrites s' = m_QueuedWrites s \<and>
         WriteCalls s' = WriteCalls s \<and> Wire s' = Wire s"
proof (cases "FutureResponseActions s")
  case Nil
  with assms show ?thesis by (auto simp: ReadLoop_step_def)
next
  case (Cons item ledger)
  with assms have "ReadLoop_item env item (s\<lparr>FutureResponseActions := ledger\<rparr>) = (x, s')"
    by (simp add: ReadLoop_step_def)
  from ReadLoop_item_fields [OF this] show ?thesis by simp
qed

lemma happen_no_empty_list:
  assumes e: "call_no_empty_list e"
    and inv: "Amounts_positive (FutureResponseActions s) \<and> queued_no_empty_list s"
    and h: "happen env e s = (Normal, s')"
  shows "Amounts_positive (FutureResponseActions s') \<and> queued_no_empty_list s'"
proof (cases e)
  case (Call_FireAndForgetQuery query priority)
  with h inv show ?thesis
    by (auto simp: RedisConnection_FireAndForgetQuery_def post_def Logged_add_def
        queued_no_empty_list_def no_empty_list_def FireOne_def)
next
  case (Call_FireAndForgetQueries queries priority)
  with h inv e show ?thesis
    by (auto simp: RedisConnection_FireAndForgetQueries_def post_def LogQueries_def
        queued_no_empty_list_def no_empty_list_def FireMany_def)
next
  case (Call_GetResultOfQuery query priority)
  with h inv show ?thesis
    by (auto simp: RedisConnection_GetResultOfQuery_def post_def Logged_add_def Let_def
        queued_no_empty_list_def no_empty_list_def AwaitOne_def)
next
  case (Call_GetResultsOfQueries queries priority)
  with h inv e show ?thesis
    by (auto simp: RedisConnection_GetResultsOfQueries_def post_def LogQueries_def Let_def
        queued_no_empty_list_def no_empty_list_def AwaitMany_def)
next
  case (Call_SuppressQueryKind kind)
  with h inv show ?thesis
    by (auto simp: RedisConnection_SuppressQueryKind_def post_def queued_no_empty_list_def)
next
  case (Call_UnsuppressQueryKind kind)
  with h inv show ?thesis
    by (auto simp: RedisConnection_UnsuppressQueryKind_def post_def queued_no_empty_list_def)
next
  case Run_posted
  show ?thesis
  proof (cases "Strand s")
    case Nil
    with Run_posted h inv show ?thesis by (auto simp: Strand_run_def)
  next
    case (Cons f rest)
    with Run_posted h inv show ?thesis
      by (cases f) (auto simp: Strand_run_def queued_no_empty_list_def intro: Writes_emplace_all)
  qed
next
  case Writer_pass
  show ?thesis
  proof (cases "m_QueuedWrites s")
    case False
    with Writer_pass h inv show ?thesis by simp
  next
    case True
    show ?thesis
    proof (cases "WriteLoop_scan (m_SuppressedQueryKinds s) (Writes s)")
      case None
      with Writer_pass True h inv show ?thesis
        by (auto simp: WriteLoop_pass_def queued_no_empty_list_def)
    next
      case (Some a)
      obtain p "next" w where a: "a = (p, next, w)" by (cases a)
      from inv have "list_all (\<lambda>(k, queue). list_all no_empty_list queue) (Writes s)"
        by (simp add: queued_no_empty_list_def)
      from WriteLoop_scan_all [OF Some [unfolded a] this]
      have n: "no_empty_list next" and w: "list_all (\<lambda>(k, queue). list_all no_empty_list queue) w"
        by simp_all
      from Writer_pass True h Some a
      have wi: "WriteItem env next (s\<lparr>Writes := w\<rparr>) = (Normal, s')"
        by (simp add: WriteLoop_pass_def)
      from WriteItem_fields [OF wi] inv w have "queued_no_empty_list s'"
        by (simp add: queued_no_empty_list_def)
      moreover from WriteItem_Amounts_positive [OF n, of "s\<lparr>Writes := w\<rparr>" env] inv wi
      have "Amounts_positive (FutureResponseActions s')" by simp
      ultimately show ?thesis by simp
    qed
  qed
next
  case Reader_round
  show ?thesis
  proof (cases "m_QueuedReads s")
    case False
    with Reader_round h inv show ?thesis by simp
  next
    case True
    with Reader_round h have r: "ReadLoop_step env s = (Normal, s')" by simp
    from ReadLoop_step_fields [OF r] inv have "queued_no_empty_list s'"
      by (simp add: queued_no_empty_list_def)
    moreover from ReadLoop_step_Amounts_positive [of s env] inv r
    have "Amounts_positive (FutureResponseActions s')" by simp
    ultimately show ?thesis by simp
  qed
qed

text \<open>
  Claim C8, amended. A record that WriteItem creates for one query has amount 1, and a
  record it creates for a list of n queries has amount n. So every record of the ledger
  has an amount of at least 1 as long as no operation is called with an empty list:
  WriteItem keeps this for an item without an empty list, a round of the reader keeps
  it, and it holds in every state that a run of such calls and of the other events
  reaches from the constructor's state.
\<close>

theorem Amounts_positive_without_empty_lists:
  "(Amounts_positive (FutureResponseActions s) \<and> no_empty_list next \<longrightarrow>
      Amounts_positive (FutureResponseActions (snd (WriteItem env next s)))) \<and>
   (Amounts_positive (FutureResponseActions s) \<longrightarrow>
      Amounts_positive (FutureResponseActions (snd (ReadLoop_step env s)))) \<and>
   (list_all call_no_empty_list events \<and>
    run env events (RedisConnection_new host port path) = (Normal, s') \<longrightarrow>
      Amounts_positive (FutureResponseActions s')) \<and>
   no_empty_list (FireOne query) \<and> no_empty_list (AwaitOne query promise) \<and>
   no_empty_list (FireMany queries) = (queries \<noteq> []) \<and>
   no_empty_list (AwaitMany queries promise) = (queries \<noteq> [])"
proof (intro conjI impI)
  assume "Amounts_positive (FutureResponseActions s) \<and> no_empty_list next"
  then show "Amounts_positive (FutureResponseActions (snd (WriteItem env next s)))"
    using WriteItem_Amounts_positive by blast
next
  assume "Amounts_positive (FutureResponseActions s)"
  then show "Amounts_positive (FutureResponseActions (snd (ReadLoop_step env s)))"
    by (rule ReadLoop_step_Amounts_positive)
next
  assume a: "list_all call_no_empty_list events \<and>
    run env events (RedisConnection_new host port path) = (Normal, s')"
  let ?J = "\<lambda>s. Amounts_positive (FutureResponseActions s) \<and> queued_no_empty_list s"
  have 0: "?J (RedisConnection_new host port path)"
    by (simp add: RedisConnection_new_def Amounts_positive_def queued_no_empty_list_def)
  have "?J s'"
  proof (rule run_invariant_on [where P = ?J and es = events, OF _ 0])
    show "run env events (RedisConnection_new host port path) = (Normal, s')" using a by simp
  next
    fix e t t' assume "e \<in> set events" "?J t" "happen env e t = (Normal, t')"
    with a have "call_no_empty_list e" by (simp add: list_all_iff)
    then show "?J t'" using \<open>?J t\<close> \<open>happen env e t = (Normal, t')\<close>
      by (rule happen_no_empty_list)
  qed
  then show "Amounts_positive (FutureResponseActions s')" by simp
qed (simp_all add: no_empty_list_def FireOne_def AwaitOne_def FireMany_def AwaitMany_def)

theorem Amounts_positive_without_empty_lists_witness:
  "Amounts_positive (FutureResponseActions example_state) \<and>
   no_empty_list (FireMany [[''PING'']]) \<and>
   Amounts_positive
     (FutureResponseActions (snd (WriteItem example_env (FireMany [[''PING'']]) example_state))) \<and>
   Amounts_positive (FutureResponseActions (snd (ReadLoop_step example_env example_state))) \<and>
   list_all call_no_empty_list
     [Call_GetResultsOfQueries [[''GET'', ''k'']] 0, Run_posted, Writer_pass] \<and>
   fst (run example_env [Call_GetResultsOfQueries [[''GET'', ''k'']] 0, Run_posted, Writer_pass]
          (RedisConnection_new ''localhost'' 6379 [])) = Normal \<and>
   Amounts_positive
     (FutureResponseActions
       (snd (run example_env [Call_GetResultsOfQueries [[''GET'', ''k'']] 0, Run_posted, Writer_pass]
          (RedisConnection_new ''localhost'' 6379 []))))"
proof -
  let ?evs = "[Call_GetResultsOfQueries [[''GET'', ''k'']] 0, Run_posted, Writer_pass]"
  let ?u = "run example_env ?evs (RedisConnection_new ''localhost'' 6379 [])"
  have a: "Amounts_positive (FutureResponseActions example_state)" by code_simp
  have b: "no_empty_list (FireMany [[''PING'']])" by code_simp
  have c: "list_all call_no_empty_list ?evs" by simp
  have d0: "fst ?u = Normal" by code_simp
  then have d: "?u = (Normal, snd ?u)" by (simp add: prod_eq_iff)
  from Amounts_positive_without_empty_lists
         [of example_state "FireMany [[''PING'']]" example_env ?evs "''localhost''" 6379 "[]"
             "snd ?u"]
       a b c d d0
  show ?thesis by blast
qed

lemma Writes_emplace_keys:
  "set (map fst (Writes_emplace priority item writes)) = insert priority (set (map fst writes))"
proof (induction writes)
  case Nil
  then show ?case by simp
next
  case (Cons a writes)
  obtain k queue where a: "a = (k, queue)" by (cases a)
  consider "priority < k" | "priority = k" | "k < priority" by linarith
  then show ?case
  proof cases
    case 1
    with a show ?thesis by simp
  next
    case 2
    with a show ?thesis by simp
  next
    case 3
    with a Cons.IH show ?thesis by (simp add: insert_commute)
  qed
qed

lemma Writes_emplace_ascending:
  "keys_ascending writes \<Longrightarrow> keys_ascending (Writes_emplace priority item writes)"
proof (induction writes)
  case Nil
  then show ?case by (simp add: keys_ascending_def)
next
  case (Cons a writes)
  obtain k queue where a: "a = (k, queue)" by (cases a)
  from Cons.prems a have asc: "keys_ascending writes" and lt: "\<forall>x\<in>set (map fst writes). k < x"
    by (auto simp: keys_ascending_def)
  from Cons.IH [OF asc] have ih: "keys_ascending (Writes_emplace priority item writes)" .
  show ?case
  proof (cases "priority < k")
    case True
    with Cons.prems a show ?thesis by (auto simp: keys_ascending_def)
  next
    case False
    show ?thesis
    proof (cases "priority = k")
      case True
      with Cons.prems a show ?thesis by (auto simp: keys_ascending_def)
    next
      case ne: False
      with False have "k < priority" by simp
      with lt have "\<forall>x\<in>set (map fst (Writes_emplace priority item writes)). k < x"
        unfolding Writes_emplace_keys by auto
      with ih a False ne show ?thesis by (simp add: keys_ascending_def)
    qed
  qed
qed

lemma queue_of_Writes_emplace:
  "keys_ascending writes \<Longrightarrow>
   queue_of (Writes_emplace priority item writes) q =
     (if q = priority then queue_of writes priority @ [item] else queue_of writes q)"
proof (induction writes)
  case Nil
  then show ?case by (simp add: queue_of_def)
next
  case (Cons a writes)
  obtain k queue where a: "a = (k, queue)" by (cases a)
  from Cons.prems a have asc: "keys_ascending writes" and lt: "\<forall>x\<in>set (map fst writes). k < x"
    by (auto simp: keys_ascending_def)
  show ?case
  proof (cases "priority < k")
    case True
    with lt have "priority \<notin> set (map fst writes)" by auto
    then have "map_of writes priority = None" by (simp add: map_of_eq_None_iff)
    with True a show ?thesis by (auto simp: queue_of_def)
  next
    case False
    with Cons.IH [OF asc] a show ?thesis by (auto simp: queue_of_def)
  qed
qed

lemma WriteLoop_scan_keys:
  "WriteLoop_scan suppressed writes = Some (p, item, writes') \<Longrightarrow> map fst writes' = map fst writes"
proof (induction writes arbitrary: writes')
  case Nil
  then show ?case by simp
next
  case (Cons a writes)
  obtain k queue where a: "a = (k, queue)" by (cases a)
  show ?case
  proof (cases "queue = [] \<or> k \<in> suppressed")
    case True
    with Cons.prems a obtain rest' where
      r: "WriteLoop_scan suppressed writes = Some (p, item, rest')" and w: "writes' = (k, queue) # rest'"
      by (cases queue) (auto split: if_splits)
    from Cons.IH [OF r] a w show ?thesis by simp
  next
    case False
    with Cons.prems a show ?thesis by (cases queue) auto
  qed
qed

lemma WriteLoop_scan_Some:
  "keys_ascending writes \<Longrightarrow> WriteLoop_scan suppressed writes = Some (p, item, writes') \<Longrightarrow>
   p \<notin> suppressed \<and> queue_of writes p = item # queue_of writes' p \<and>
   (\<forall>q. q \<noteq> p \<longrightarrow> queue_of writes' q = queue_of writes q) \<and>
   (\<forall>q<p. q \<in> suppressed \<or> queue_of writes q = [])"
proof (induction writes arbitrary: writes')
  case Nil
  then show ?case by simp
next
  case (Cons a writes)
  obtain k queue where a: "a = (k, queue)" by (cases a)
  from Cons.prems a have asc: "keys_ascending writes" and lt: "\<forall>x\<in>set (map fst writes). k < x"
    by (auto simp: keys_ascending_def)
  have below: "map_of writes q = None" if "q \<le> k" for q
  proof -
    from lt that have "q \<notin> set (map fst writes)" by auto
    then show ?thesis by (simp add: map_of_eq_None_iff)
  qed
  show ?case
  proof (cases "queue = [] \<or> k \<in> suppressed")
    case True
    with Cons.prems a obtain rest' where
      r: "WriteLoop_scan suppressed writes = Some (p, item, rest')" and w: "writes' = (k, queue) # rest'"
      by (cases queue) (auto split: if_splits)
    from Cons.IH [OF asc r]
    have ih: "p \<notin> suppressed" "queue_of writes p = item # queue_of rest' p"
      "\<forall>q. q \<noteq> p \<longrightarrow> queue_of rest' q = queue_of writes q"
      "\<forall>q<p. q \<in> suppressed \<or> queue_of writes q = []" by simp_all
    have kp: "k < p"
    proof (rule ccontr)
      assume "\<not> k < p"
      then have "map_of writes p = None" by (intro below) simp
      with ih(2) show False by (simp add: queue_of_def)
    qed
    have 1: "queue_of (a # writes) p = item # queue_of writes' p"
      using kp ih(2) a w by (simp add: queue_of_def)
    have 2: "\<forall>q. q \<noteq> p \<longrightarrow> queue_of writes' q = queue_of (a # writes) q"
      using ih(3) a w by (simp add: queue_of_def)
    have 3: "\<forall>q<p. q \<in> suppressed \<or> queue_of (a # writes) q = []"
    proof (intro allI impI)
      fix q assume "q < p"
      show "q \<in> suppressed \<or> queue_of (a # writes) q = []"
      proof (cases "q = k")
        case True
        with True \<open>queue = [] \<or> k \<in> suppressed\<close> a show ?thesis by (auto simp: queue_of_def)
      next
        case False
        with ih(4) \<open>q < p\<close> a show ?thesis by (auto simp: queue_of_def)
      qed
    qed
    from ih(1) 1 2 3 show ?thesis by blast
  next
    case False
    then obtain x queue' where q: "queue = x # queue'" by (cases queue) auto
    with False Cons.prems a have eq: "p = k" "item = x" "writes' = (k, queue') # writes" by auto
    have "\<forall>q<p. q \<in> suppressed \<or> queue_of (a # writes) q = []"
      using eq a below by (auto simp: queue_of_def)
    with eq a q False show ?thesis by (auto simp: queue_of_def)
  qed
qed

lemma WriteLoop_scan_None:
  "WriteLoop_scan suppressed writes = None \<Longrightarrow> q \<in> suppressed \<or> queue_of writes q = []"
proof (induction writes)
  case Nil
  then show ?case by (simp add: queue_of_def)
next
  case (Cons a writes)
  obtain k queue where a: "a = (k, queue)" by (cases a)
  from Cons.prems a have n: "WriteLoop_scan suppressed writes = None" and e: "queue = [] \<or> k \<in> suppressed"
    by (cases queue; auto split: if_splits)+
  from Cons.IH [OF n] e a show ?case by (auto simp: queue_of_def)
qed

lemma WriteLoop_scan_finds:
  assumes "keys_ascending writes" and "q \<notin> suppressed" and "queue_of writes q \<noteq> []"
  shows "\<exists>p item writes'. WriteLoop_scan suppressed writes = Some (p, item, writes') \<and> p \<le> q"
proof (cases "WriteLoop_scan suppressed writes")
  case None
  from WriteLoop_scan_None [OF None, of q] assms show ?thesis by simp
next
  case (Some a)
  obtain p item writes' where a: "a = (p, item, writes')" by (cases a)
  from WriteLoop_scan_Some [OF assms(1) Some [unfolded a]] assms(2,3) have "\<not> q < p" by blast
  with Some a show ?thesis by auto
qed

lemma happen_keys_ascending:
  assumes inv: "keys_ascending (Writes s)" and h: "happen env e s = (Normal, s')"
  shows "keys_ascending (Writes s')"
proof (cases e)
  case (Call_FireAndForgetQuery query priority)
  with h inv show ?thesis
    by (auto simp: RedisConnection_FireAndForgetQuery_def post_def Logged_add_def)
next
  case (Call_FireAndForgetQueries queries priority)
  with h inv show ?thesis
    by (auto simp: RedisConnection_FireAndForgetQueries_def post_def LogQueries_def)
next
  case (Call_GetResultOfQuery query priority)
  with h inv show ?thesis
    by (auto simp: RedisConnection_GetResultOfQuery_def post_def Logged_add_def Let_def)
next
  case (Call_GetResultsOfQueries queries priority)
  with h inv show ?thesis
    by (auto simp: RedisConnection_GetResultsOfQueries_def post_def LogQueries_def Let_def)
next
  case (Call_SuppressQueryKind kind)
  with h inv show ?thesis by (auto simp: RedisConnection_SuppressQueryKind_def post_def)
next
  case (Call_UnsuppressQueryKind kind)
  with h inv show ?thesis by (auto simp: RedisConnection_UnsuppressQueryKind_def post_def)
next
  case Run_posted
  show ?thesis
  proof (cases "Strand s")
    case Nil
    with Run_posted h inv show ?thesis by (auto simp: Strand_run_def)
  next
    case (Cons f rest)
    with Run_posted h inv show ?thesis
      by (cases f) (auto simp: Strand_run_def intro: Writes_emplace_ascending)
  qed
next
  case Writer_pass
  show ?thesis
  proof (cases "m_QueuedWrites s")
    case False
    with Writer_pass h inv show ?thesis by simp
  next
    case True
    show ?thesis
    proof (cases "WriteLoop_scan (m_SuppressedQueryKinds s) (Writes s)")
      case None
      with Writer_pass True h inv show ?thesis by (auto simp: WriteLoop_pass_def)
    next
      case (Some a)
      obtain p "next" w where a: "a = (p, next, w)" by (cases a)
      from WriteLoop_scan_keys [OF Some [unfolded a]] inv have w: "keys_ascending w"
        by (simp add: keys_ascending_def)
      from Writer_pass True h Some a
      have "WriteItem env next (s\<lparr>Writes := w\<rparr>) = (Normal, s')"
        by (simp add: WriteLoop_pass_def)
      from WriteItem_fields [OF this] w show ?thesis by simp
    qed
  qed
next
  case Reader_round
  show ?thesis
  proof (cases "m_QueuedReads s")
    case False
    with Reader_round h inv show ?thesis by simp
  next
    case True
    with Reader_round h have "ReadLoop_step env s = (Normal, s')" by simp
    from ReadLoop_step_fields [OF this] inv show ?thesis by simp
  qed
qed

lemma run_keys_ascending:
  "keys_ascending (Writes s0) \<Longrightarrow> run env events s0 = (Normal, s) \<Longrightarrow> keys_ascending (Writes s)"
  by (rule run_invariant [where P = "\<lambda>s. keys_ascending (Writes s)"])
     (rule happen_keys_ascending)

text \<open>
  Claim C2. In every state that a run of events reaches (from the constructor's state,
  or from any state whose map of queues is in key order), the item that a pass of the
  writer takes is the front of a queue that is not suppressed, and every queue of a
  smaller priority value is suppressed or empty at that moment. So when a queue that is
  not suppressed holds an item, the next pass takes an item of that priority or of a
  higher one, never of a lower one; and an item that is enqueued goes to the back of the
  queue of its priority. As every pass scans the map anew from its first key, an item
  enqueued at priority q is taken before any item of a priority p with q < p.
\<close>

theorem WriteLoop_strict_priority:
  "keys_ascending (Writes (RedisConnection_new host port path)) \<and>
   (keys_ascending (Writes s0) \<and> run env events s0 = (Normal, s) \<and>
    WriteLoop_scan (m_SuppressedQueryKinds s) (Writes s) = Some (p, next, writes) \<longrightarrow>
      p \<notin> m_SuppressedQueryKinds s \<and>
      queue_of (Writes s) p = next # queue_of writes p \<and>
      (\<forall>q<p. q \<in> m_SuppressedQueryKinds s \<or> queue_of (Writes s) q = []) \<and>
      WriteLoop_pass env s = WriteItem env next (s\<lparr>Writes := writes\<rparr>)) \<and>
   (keys_ascending (Writes s0) \<and> run env events s0 = (Normal, s) \<and>
    q \<notin> m_SuppressedQueryKinds s \<and> queue_of (Writes s) q \<noteq> [] \<longrightarrow>
      (\<exists>p' next' writes'.
         WriteLoop_scan (m_SuppressedQueryKinds s) (Writes s) = Some (p', next', writes') \<and>
         p' \<le> q)) \<and>
   (keys_ascending (Writes s0) \<and> run env events s0 = (Normal, s) \<longrightarrow>
      queue_of (Writes (run_posted (EmplaceWrite q item) s)) q = queue_of (Writes s) q @ [item] \<and>
      m_SuppressedQueryKinds (run_posted (EmplaceWrite q item) s) = m_SuppressedQueryKinds s)"
proof (intro conjI impI)
  show "keys_ascending (Writes (RedisConnection_new host port path))"
    by (simp add: RedisConnection_new_def keys_ascending_def)
next
  assume a: "keys_ascending (Writes s0) \<and> run env events s0 = (Normal, s) \<and>
    WriteLoop_scan (m_SuppressedQueryKinds s) (Writes s) = Some (p, next, writes)"
  then have asc: "keys_ascending (Writes s)" using run_keys_ascending by blast
  from a have sc: "WriteLoop_scan (m_SuppressedQueryKinds s) (Writes s) = Some (p, next, writes)"
    by simp
  from WriteLoop_scan_Some [OF asc sc]
  show "p \<notin> m_SuppressedQueryKinds s"
    and "queue_of (Writes s) p = next # queue_of writes p"
    and "\<forall>q<p. q \<in> m_SuppressedQueryKinds s \<or> queue_of (Writes s) q = []"
    by simp_all
  from sc show "WriteLoop_pass env s = WriteItem env next (s\<lparr>Writes := writes\<rparr>)"
    by (simp add: WriteLoop_pass_def)
next
  assume a: "keys_ascending (Writes s0) \<and> run env events s0 = (Normal, s) \<and>
    q \<notin> m_SuppressedQueryKinds s \<and> queue_of (Writes s) q \<noteq> []"
  then have asc: "keys_ascending (Writes s)" using run_keys_ascending by blast
  from WriteLoop_scan_finds [OF asc] a
  show "\<exists>p' next' writes'.
         WriteLoop_scan (m_SuppressedQueryKinds s) (Writes s) = Some (p', next', writes') \<and>
         p' \<le> q" by blast
next
  assume a: "keys_ascending (Writes s0) \<and> run env events s0 = (Normal, s)"
  then have asc: "keys_ascending (Writes s)" using run_keys_ascending by blast
  then show "queue_of (Writes (run_posted (EmplaceWrite q item) s)) q = queue_of (Writes s) q @ [item]"
    by (simp add: queue_of_Writes_emplace)
  show "m_SuppressedQueryKinds (run_posted (EmplaceWrite q item) s) = m_SuppressedQueryKinds s"
    by simp
qed

theorem WriteLoop_strict_priority_witness:
  "keys_ascending (Writes (RedisConnection_new ''localhost'' 6379 [])) \<and>
   fst (run example_env
          [Call_SuppressQueryKind 0, Call_FireAndForgetQuery [''SET'', ''a'', ''1''] 0,
           Call_FireAndForgetQuery [''SET'', ''b'', ''2''] 1, Run_posted, Run_posted, Run_posted]
          (RedisConnection_new ''localhost'' 6379 [])) = Normal \<and>
   WriteLoop_scan (m_SuppressedQueryKinds example_suppressed) (Writes example_suppressed) =
     Some (1, FireOne [''SET'', ''b'', ''2''], [(0, [FireOne [''SET'', ''a'', ''1'']]), (1, [])]) \<and>
   1 \<notin> m_SuppressedQueryKinds example_suppressed \<and>
   queue_of (Writes example_suppressed) 1 =
     FireOne [''SET'', ''b'', ''2''] # queue_of [(0, [FireOne [''SET'', ''a'', ''1'']]), (1, [])] 1 \<and>
   (0 \<in> m_SuppressedQueryKinds example_suppressed \<or> queue_of (Writes example_suppressed) 0 = []) \<and>
   queue_of (Writes example_suppressed) 1 \<noteq> [] \<and>
   queue_of (Writes (run_posted (EmplaceWrite 1 (FireOne [''PING''])) example_suppressed)) 1 =
     queue_of (Writes example_suppressed) 1 @ [FireOne [''PING'']]"
proof -
  let ?new = "RedisConnection_new ''localhost'' 6379 []"
  let ?evs = "[Call_SuppressQueryKind 0, Call_FireAndForgetQuery [''SET'', ''a'', ''1''] 0,
           Call_FireAndForgetQuery [''SET'', ''b'', ''2''] 1, Run_posted, Run_posted, Run_posted]"
  let ?w = "[(0, [FireOne [''SET'', ''a'', ''1'']]), (1, [])]"
  have a: "keys_ascending (Writes ?new)" by code_simp
  have b0: "fst (run example_env ?evs ?new) = Normal" by code_simp
  then have b: "run example_env ?evs ?new = (Normal, example_suppressed)"
    by (simp add: prod_eq_iff example_suppressed_def)
  have c: "WriteLoop_scan (m_SuppressedQueryKinds example_suppressed) (Writes example_suppressed) =
     Some (1, FireOne [''SET'', ''b'', ''2''], ?w)" by code_simp
  have d: "1 \<notin> m_SuppressedQueryKinds example_suppressed" by code_simp
  have e: "queue_of (Writes example_suppressed) 1 \<noteq> []" by code_simp
  from WriteLoop_strict_priority
         [of "''localhost''" 6379 "[]" ?new example_env ?evs example_suppressed 1
             "FireOne [''SET'', ''b'', ''2'']" ?w 1 "FireOne [''PING'']"]
       a b b0 c d e
  show ?thesis by (simp del: run.simps)
qed

lemma no_unwind_refl [simp]: "no_unwind fail a a"
  by (auto simp: no_unwind_def)









lemma unwinds_through_Returned:
  "unwinds_through env s x s' \<Longrightarrow> x \<noteq> Thrown forced_unwind \<Longrightarrow> x \<noteq> Normal \<Longrightarrow>
   unwinds_through env s Returned s'"
  by (auto simp: unwinds_through_def)





























lemma and_then_Normal [simp]: "and_then (Normal, s) f = f s"
  by (simp add: and_then_def)
















end
